theory Spec2Isabelle
  imports Main "HOL-Library.Word" "HOL-Library.AList"
begin

section \<open>Builder options and the cache key (CacheBuild.createHash)\<close>

text \<open>
  The options object read by the build cache. An option that is not set is \<open>None\<close>
  (JavaScript's \<open>undefined\<close>). The tracked options are strings, \<open>attributes\<close> is an
  array whose items are strings or objects mapping strings to strings (an object is
  given by its properties in enumeration order). Every other option of the builder
  lives in the record's extension part.
\<close>

datatype attribute = AttrName string | AttrObject "(string \<times> string) list"

record options =
  tagName :: "string option"
  themeFile :: "string option"
  indexFile :: "string option"
  appTitle :: "string option"
  attributes :: "attribute list option"
  noCache :: bool

text \<open>Errors are values: an optional \<open>code\<close> property and a message.\<close>

datatype error = Error (code: "string option") (message: string)

subsection \<open>JSON.stringify on the attributes array\<close>

definition hexDigit :: "nat \<Rightarrow> char" where
  "hexDigit n = ''0123456789abcdef'' ! (n mod 16)"

definition jsonEscape :: "char \<Rightarrow> string" where
  "jsonEscape c =
     (if c = CHR 0x22 then [CHR 0x5C, CHR 0x22]
      else if c = CHR 0x5C then [CHR 0x5C, CHR 0x5C]
      else if c = CHR 0x08 then [CHR 0x5C, CHR ''b'']
      else if c = CHR 0x0C then [CHR 0x5C, CHR ''f'']
      else if c = CHR 0x0A then [CHR 0x5C, CHR ''n'']
      else if c = CHR 0x0D then [CHR 0x5C, CHR ''r'']
      else if c = CHR 0x09 then [CHR 0x5C, CHR ''t'']
      else if (of_char c :: nat) < 32
        then [CHR 0x5C, CHR ''u'', CHR ''0'', CHR ''0'',
              hexDigit (of_char c div 16), hexDigit (of_char c mod 16)]
      else [c])"

definition jsonString :: "string \<Rightarrow> string" where
  "jsonString s = CHR 0x22 # concat (map jsonEscape s) @ [CHR 0x22]"

text \<open>\<open>Array.prototype.join\<close>.\<close>

fun join :: "string \<Rightarrow> string list \<Rightarrow> string" where
  "join sep [] = []"
| "join sep [x] = x"
| "join sep (x # y # ys) = x @ sep @ join sep (y # ys)"

definition jsonMember :: "string \<times> string \<Rightarrow> string" where
  "jsonMember kv = jsonString (fst kv) @ '':'' @ jsonString (snd kv)"

fun jsonAttribute :: "attribute \<Rightarrow> string" where
  "jsonAttribute (AttrName s) = jsonString s"
| "jsonAttribute (AttrObject kvs) = ''{'' @ join '','' (map jsonMember kvs) @ ''}''"

text \<open>
  \<open>JSON.stringify\<close> may throw (the source wraps it in \<open>try\<close>); on arrays of strings
  and string-valued objects it always returns.
\<close>

definition JSON_stringify :: "attribute list \<Rightarrow> error + string" where
  "JSON_stringify as = Inr (''['' @ join '','' (map jsonAttribute as) @ '']'')"

subsection \<open>createHash\<close>

text \<open>
  \<open>if (opts.x) parts.push(`p=${opts.x}`)\<close>: a string is truthy when it is set and not
  empty.
\<close>

definition fragment :: "string \<Rightarrow> string option \<Rightarrow> string list" where
  "fragment prefix v =
     (case v of None \<Rightarrow> [] | Some s \<Rightarrow> if s = [] then [] else [prefix @ s])"

text \<open>An array is truthy even when empty; a throwing serialisation adds nothing.\<close>

definition attributesFragment :: "attribute list option \<Rightarrow> string list" where
  "attributesFragment v =
     (case v of None \<Rightarrow> []
      | Some as \<Rightarrow> (case JSON_stringify as of Inl _ \<Rightarrow> [] | Inr s \<Rightarrow> [''a='' @ s]))"

definition hashParts :: "'a options_scheme \<Rightarrow> string list" where
  "hashParts opts =
     fragment ''tn='' (tagName opts) @
     fragment ''tf='' (themeFile opts) @
     fragment ''if='' (indexFile opts) @
     fragment ''at='' (appTitle opts) @
     attributesFragment (attributes opts)"

definition hashMaterial :: "'a options_scheme \<Rightarrow> string" where
  "hashMaterial opts = join ''|'' (hashParts opts)"

text \<open>
  The digest itself is Node's \<open>crypto\<close> module: \<open>sha256\<close> is a parameter, the raw
  32-byte digest of the data; \<open>digest('hex')\<close> writes each byte as two lower-case
  hexadecimal digits.
\<close>

definition hexByte :: "8 word \<Rightarrow> string" where
  "hexByte w = [hexDigit (unat w div 16), hexDigit (unat w mod 16)]"

definition digestHex :: "8 word list \<Rightarrow> string" where
  "digestHex bs = concat (map hexByte bs)"

definition createHash :: "(string \<Rightarrow> 8 word list) \<Rightarrow> 'a options_scheme \<Rightarrow> string" where
  "createHash sha256 opts = digestHex (sha256 (hashMaterial opts))"

section \<open>Node's path module, POSIX flavour\<close>

text \<open>
  \<open>path.join\<close>, \<open>path.normalize\<close> and \<open>path.dirname\<close> as Node defines them on a
  POSIX host. An argument that is not a string (here: \<open>undefined\<close>, \<open>None\<close>) makes
  \<open>path.join\<close> throw a \<open>TypeError\<close> with code \<open>ERR_INVALID_ARG_TYPE\<close>.
\<close>

definition invalidArgType :: error where
  "invalidArgType =
     Error (Some ''ERR_INVALID_ARG_TYPE'') ''The path argument must be of type string''"

fun splitSlash :: "string \<Rightarrow> string list" where
  "splitSlash [] = [[]]"
| "splitSlash (c # cs) =
     (if c = CHR ''/'' then [] # splitSlash cs
      else (case splitSlash cs of [] \<Rightarrow> [[c]] | s # ss \<Rightarrow> (c # s) # ss))"

text \<open>
  \<open>normalizeString\<close> walks the segments: empty segments and \<open>.\<close> are dropped,
  \<open>..\<close> removes the segment before it, or stays when there is none to remove and the
  path is relative.
\<close>

definition normalizeStep :: "bool \<Rightarrow> string list \<Rightarrow> string \<Rightarrow> string list" where
  "normalizeStep allowAboveRoot res seg =
     (if seg = [] \<or> seg = ''.'' then res
      else if seg = ''..'' then
        (if res \<noteq> [] \<and> last res \<noteq> ''..'' then butlast res
         else if allowAboveRoot then res @ [''..'']
         else res)
      else res @ [seg])"

definition normalizeSegments :: "bool \<Rightarrow> string \<Rightarrow> string list" where
  "normalizeSegments allowAboveRoot path =
     foldl (normalizeStep allowAboveRoot) [] (splitSlash path)"

definition normalizeString :: "string \<Rightarrow> bool \<Rightarrow> string" where
  "normalizeString path allowAboveRoot = join ''/'' (normalizeSegments allowAboveRoot path)"

definition normalize :: "string \<Rightarrow> string" where
  "normalize path =
     (if path = [] then ''.''
      else
        (let isAbsolute = (hd path = CHR ''/'');
             trailingSeparator = (last path = CHR ''/'');
             p = normalizeString path (\<not> isAbsolute)
         in if p = [] then (if isAbsolute then ''/'' else if trailingSeparator then ''./'' else ''.'')
            else (if isAbsolute then ''/'' else []) @ p @ (if trailingSeparator then ''/'' else [])))"

text \<open>\<open>path.join\<close> on strings, and with the check of its arguments.\<close>

definition joinPaths :: "string list \<Rightarrow> string" where
  "joinPaths args =
     (let parts = filter (\<lambda>s. s \<noteq> []) args
      in if parts = [] then ''.'' else normalize (join ''/'' parts))"

definition path_join :: "string option list \<Rightarrow> error + string" where
  "path_join args =
     (if None \<in> set args then Inl invalidArgType else Inr (joinPaths (map the args)))"

text \<open>
  \<open>path.dirname\<close> scans from the end, down to index 1: trailing slashes are skipped,
  then the last segment, and the path is cut at the slash before it.
\<close>

definition dirname :: "string \<Rightarrow> string" where
  "dirname path =
     (if path = [] then ''.''
      else
        (let hasRoot = (hd path = CHR ''/'');
             r = dropWhile (\<lambda>c. c \<noteq> CHR ''/'')
                   (dropWhile (\<lambda>c. c = CHR ''/'') (rev (tl path)))
         in if r = [] then (if hasRoot then ''/'' else ''.'')
            else if hasRoot \<and> tl r = [] then ''//''
            else hd path # rev (tl r)))"

section \<open>The process and the cache folder (CacheBuild.locateAppDir)\<close>

record process =
  platform :: string
  env :: "string \<Rightarrow> string option"

datatype level = Debug | Info | Warn | Err

datatype payload = Text string | Thrown error

type_synonym logline = "level \<times> payload"

text \<open>\<open>typeof v !== 'undefined' && v\<close> on an environment variable.\<close>

definition isSet :: "string option \<Rightarrow> bool" where
  "isSet v = (case v of None \<Rightarrow> False | Some s \<Rightarrow> s \<noteq> [])"

text \<open>\<open>if (!platform) platform = process.platform\<close>\<close>

definition effectivePlatform :: "process \<Rightarrow> string option \<Rightarrow> string" where
  "effectivePlatform proc platformArg =
     (if isSet platformArg then the platformArg else platform proc)"

text \<open>
  The folder before the fixed suffix is appended. \<open>process.env.HOME\<close> is passed to
  \<open>path.join\<close> as it is.
\<close>

definition baseDir :: "process \<Rightarrow> string option \<Rightarrow> error + string" where
  "baseDir proc platformArg =
     (if isSet (env proc ''APPDATA'') then Inr (the (env proc ''APPDATA''))
      else if effectivePlatform proc platformArg = ''darwin''
        then path_join [env proc ''HOME'', Some ''Library'', Some ''Preferences'']
      else if effectivePlatform proc platformArg = ''linux''
        then path_join [env proc ''HOME'', Some ''.config'']
      else Inr ''/var/local'')"

definition locateAppDir :: "process \<Rightarrow> string option \<Rightarrow> (error + string) \<times> logline list" where
  "locateAppDir proc platformArg =
     (case baseDir proc platformArg of
        Inl e \<Rightarrow> (Inl e, [])
      | Inr dir \<Rightarrow>
          (case path_join [Some dir, Some ''api-console'', Some ''cache'', Some ''builds''] of
             Inl e \<Rightarrow> (Inl e, [])
           | Inr dir' \<Rightarrow> (Inr dir', [(Debug, Text (''Setting builds cache path to '' @ dir'))])))"

section \<open>The store (class CacheBuild)\<close>

record 'a CacheBuild =
  opts :: "'a options_scheme"
  hash :: "string option"
  cacheFolder :: "string option"

text \<open>
  The constructor. With \<open>noCache\<close> neither the hash nor the cache folder is set; an
  exception of \<open>locateAppDir\<close> leaves the constructor.
\<close>

definition newCacheBuild ::
  "(string \<Rightarrow> 8 word list) \<Rightarrow> process \<Rightarrow> 'a options_scheme \<Rightarrow> (error + 'a CacheBuild) \<times> logline list" where
  "newCacheBuild sha256 proc os =
     (if noCache os then (Inr \<lparr>opts = os, hash = None, cacheFolder = None\<rparr>, [])
      else
        (let h = createHash sha256 os;
             l = (Debug, Text (''Build cache hash is '' @ h))
         in case locateAppDir proc None of
              (Inl e, ls) \<Rightarrow> (Inl e, l # ls)
            | (Inr dir, ls) \<Rightarrow> (Inr \<lparr>opts = os, hash = Some h, cacheFolder = Some dir\<rparr>, l # ls)))"

text \<open>\<open>`${this.hash}.zip`\<close>: an unset hash is written as \<open>undefined\<close>.\<close>

definition zipName :: "string option \<Rightarrow> string" where
  "zipName h = (case h of None \<Rightarrow> ''undefined'' | Some s \<Rightarrow> s) @ ''.zip''"

section \<open>The file system\<close>

text \<open>
  What a file holds is either plain bytes or a zip archive, given by the entries a zip
  reader finds in it, in order. For each entry \<open>stream\<close> is what \<open>openReadStream\<close>
  yields: an error, or the data that the read stream delivers.
\<close>

datatype fdata = Bytes string | ZipArchive "zentry list"
  and zentry = ZEntry (fileName: string) (stream: "error + fdata")

text \<open>
  The file system is a tree. A directory lists its children by name, in the order
  \<open>readdir\<close> reports them; \<open>Special\<close> is a node that is neither a regular file nor a
  directory. A path string denotes the node reached from the root by its normalised
  segments.
\<close>

datatype fnode = File fdata | Dir "(string \<times> fnode) list" | Special

definition resolve :: "string \<Rightarrow> string list" where
  "resolve path = normalizeSegments False path"

fun lookupNode :: "fnode \<Rightarrow> string list \<Rightarrow> fnode option" where
  "lookupNode n [] = Some n"
| "lookupNode (Dir es) (s # ss) =
     (case map_of es s of None \<Rightarrow> None | Some c \<Rightarrow> lookupNode c ss)"
| "lookupNode n (s # ss) = None"

text \<open>\<open>fs.pathExists\<close>: true for a node of any kind.\<close>

definition pathExists :: "fnode \<Rightarrow> string \<Rightarrow> bool" where
  "pathExists fs path = (lookupNode fs (resolve path) \<noteq> None)"

definition sysError :: "string \<Rightarrow> error" where
  "sysError c = Error (Some c) c"

text \<open>\<open>fs.ensureDir\<close> (mkdir -p): fails where a component of the path is not a directory.\<close>

fun ensureDirAt :: "fnode \<Rightarrow> string list \<Rightarrow> error + fnode" where
  "ensureDirAt (Dir es) [] = Inr (Dir es)"
| "ensureDirAt (Dir es) (s # ss) =
     (case ensureDirAt (case map_of es s of None \<Rightarrow> Dir [] | Some c \<Rightarrow> c) ss of
        Inl e \<Rightarrow> Inl e
      | Inr c' \<Rightarrow> Inr (Dir (AList.update s c' es)))"
| "ensureDirAt n [] = Inl (sysError ''EEXIST'')"
| "ensureDirAt n (s # ss) = Inl (sysError ''ENOTDIR'')"

definition ensureDir :: "fnode \<Rightarrow> string \<Rightarrow> error + fnode" where
  "ensureDir fs path = ensureDirAt fs (resolve path)"

text \<open>
  Writing a file through \<open>fs.createWriteStream\<close>: the file is created in an existing
  directory, or replaced; a directory cannot be written to.
\<close>

fun writeFileAt :: "fnode \<Rightarrow> string list \<Rightarrow> fdata \<Rightarrow> error + fnode" where
  "writeFileAt (File old) [] d = Inr (File d)"
| "writeFileAt (Dir es) [] d = Inl (sysError ''EISDIR'')"
| "writeFileAt Special [] d = Inr Special"
| "writeFileAt (Dir es) (s # ss) d =
     (case map_of es s of
        None \<Rightarrow> if ss = [] then Inr (Dir (es @ [(s, File d)])) else Inl (sysError ''ENOENT'')
      | Some c \<Rightarrow>
          (case writeFileAt c ss d of
             Inl e \<Rightarrow> Inl e
           | Inr c' \<Rightarrow> Inr (Dir (AList.update s c' es))))"
| "writeFileAt n (s # ss) d = Inl (sysError ''ENOTDIR'')"

definition writeFile :: "fnode \<Rightarrow> string \<Rightarrow> fdata \<Rightarrow> error + fnode" where
  "writeFile fs path d = writeFileAt fs (resolve path) d"

text \<open>\<open>fs.readdirSync(path, {withFileTypes: true})\<close>.\<close>

definition readdirSync :: "fnode \<Rightarrow> string \<Rightarrow> error + (string \<times> fnode) list" where
  "readdirSync fs path =
     (case lookupNode fs (resolve path) of
        None \<Rightarrow> Inl (sysError ''ENOENT'')
      | Some (Dir es) \<Rightarrow> Inr es
      | Some n \<Rightarrow> Inl (sysError ''ENOTDIR''))"

section \<open>Promises\<close>

text \<open>A promise settles once: a later \<open>resolve\<close> or \<open>reject\<close> changes nothing.\<close>

datatype promise = Pending | Resolved | Rejected error

definition settle :: "promise \<Rightarrow> promise \<Rightarrow> promise" where
  "settle p r = (if p = Pending then r else p)"

section \<open>The existence check (CacheBuild.hasCache)\<close>

definition hasCache :: "'a CacheBuild \<Rightarrow> fnode \<Rightarrow> error + bool" where
  "hasCache cb fs =
     (if noCache (opts cb) then Inr False
      else
        (case path_join [cacheFolder cb, Some (zipName (hash cb))] of
           Inl e \<Rightarrow> Inl e
         | Inr location \<Rightarrow> Inr (pathExists fs location)))"

section \<open>Outcomes\<close>

text \<open>
  What an operation leaves behind: the file system, the log, and an \<open>error\<close> event that
  was emitted on a stream without listener (Node throws it and the process ends). The
  outcome of an asynchronous method adds the state of the promise it returned.
\<close>

record world =
  disk :: fnode
  logged :: "logline list"
  uncaught :: "error option"

record outcome = world +
  result :: promise

section \<open>Packing (CacheBuild.cacheBuild, CacheBuild._createPackage)\<close>

text \<open>
  The archiver is a library: it is a parameter. Given the file system and the queued
  \<open>archive.file\<close> and \<open>archive.directory\<close> calls, a run of it tells the \<open>warning\<close> and
  \<open>error\<close> events it emits, in order, what it writes to the output stream, what
  \<open>archive.pointer()\<close> prints when the \<open>close\<close> listener of the output runs, and
  whether the output stream, once open, is closed at the end of the run. \<open>beforeOpen\<close>
  is the number of events emitted before the output stream has tried to open its
  file: the stream is created first, but the open itself is asynchronous.
\<close>

datatype task = AddFile string string | AddDirectory string string

datatype archiverEvent = Warning error | Failure error

record archiverRun =
  events :: "archiverEvent list"
  written :: fdata
  pointer :: string
  outputClosed :: bool
  beforeOpen :: nat

type_synonym archiver = "fnode \<Rightarrow> task list \<Rightarrow> archiverRun"

text \<open>The three listeners of \<open>_createPackage\<close>, on the promise and the log.\<close>

definition onWarning :: "error \<Rightarrow> promise \<times> logline list \<Rightarrow> promise \<times> logline list" where
  "onWarning err st =
     (if code err = Some ''ENOENT'' then (fst st, snd st @ [(Warn, Thrown err)])
      else (settle (fst st) (Rejected err), snd st @ [(Err, Thrown err)]))"

definition onError :: "error \<Rightarrow> promise \<times> logline list \<Rightarrow> promise \<times> logline list" where
  "onError err st = (settle (fst st) (Rejected err), snd st @ [(Err, Thrown err)])"

definition onOutputClose :: "string \<Rightarrow> promise \<times> logline list \<Rightarrow> promise \<times> logline list" where
  "onOutputClose bytes st =
     (settle (fst st) Resolved,
      snd st @ [(Debug, Text ''Cache build saved.''), (Debug, Text (bytes @ '' total bytes.''))])"

fun handleEvent :: "promise \<times> logline list \<Rightarrow> archiverEvent \<Rightarrow> promise \<times> logline list" where
  "handleEvent st (Warning err) = onWarning err st"
| "handleEvent st (Failure err) = onError err st"

text \<open>The body of \<open>files.forEach\<close>: what is queued for one directory entry.\<close>

fun dirEntTask :: "string \<Rightarrow> string \<times> fnode \<Rightarrow> (task \<times> logline) option" where
  "dirEntTask sources (name, File d) =
     Some (AddFile (joinPaths [sources, name]) name,
           (Debug, Text (''Adding '' @ name @ '' file to the cache...'')))"
| "dirEntTask sources (name, Dir es) =
     Some (AddDirectory (joinPaths [sources, name]) name,
           (Debug, Text (''Adding '' @ name @ '' directory to the cache...'')))"
| "dirEntTask sources (name, Special) = None"

text \<open>
  \<open>_createPackage\<close>. An exception of \<open>path.join\<close> in the executor rejects the promise.
  \<open>fs.createWriteStream\<close> creates the cache file, empty, before anything is written.
  When \<open>readdirSync\<close> throws, the promise is rejected and \<open>finalize\<close> is never called,
  so the output stays open. When the cache file cannot be opened, the output stream
  emits \<open>error\<close> and \<open>close\<close>: the error goes to the listener that \<open>archive.pipe\<close> has
  put on the output, which takes the output out of the pipe and, the stream being
  destroyed already, does no more; \<open>close\<close> goes to the listener of \<open>_createPackage\<close>,
  which logs and resolves. The events of the archiver that come later still reach their
  listeners.
\<close>

definition createPackage :: "archiver \<Rightarrow> 'a CacheBuild \<Rightarrow> fnode \<Rightarrow> string \<Rightarrow> outcome" where
  "createPackage ar cb fs sources =
     (case path_join [cacheFolder cb, Some (zipName (hash cb))] of
        Inl e \<Rightarrow> \<lparr>disk = fs, logged = [], uncaught = None, result = Rejected e\<rparr>
      | Inr dest \<Rightarrow>
          (case readdirSync fs sources of
             Inl e \<Rightarrow>
               (let st = (Rejected e, [(Err, Thrown e)])
                in case writeFile fs dest (Bytes []) of
                     Inl e' \<Rightarrow>
                       (let st' = onOutputClose ''0'' st
                        in \<lparr>disk = fs, logged = snd st', uncaught = None, result = fst st'\<rparr>)
                   | Inr fs' \<Rightarrow>
                       \<lparr>disk = fs', logged = snd st, uncaught = None, result = fst st\<rparr>)
           | Inr files \<Rightarrow>
               (let queued = List.map_filter (dirEntTask sources) files;
                    r = ar fs (map fst queued);
                    st = (Pending, map snd queued)
                in case writeFile fs dest (written r) of
                     Inl e' \<Rightarrow>
                       (let st' = foldl handleEvent
                                    (onOutputClose (pointer r)
                                       (foldl handleEvent st (take (beforeOpen r) (events r))))
                                    (drop (beforeOpen r) (events r))
                        in \<lparr>disk = fs, logged = snd st', uncaught = None, result = fst st'\<rparr>)
                   | Inr fs' \<Rightarrow>
                       (let st' = foldl handleEvent st (events r);
                            st'' = (if outputClosed r then onOutputClose (pointer r) st' else st')
                        in \<lparr>disk = fs', logged = snd st'', uncaught = None,
                             result = fst st''\<rparr>))))"

definition cacheBuild :: "archiver \<Rightarrow> 'a CacheBuild \<Rightarrow> fnode \<Rightarrow> string \<Rightarrow> outcome" where
  "cacheBuild ar cb fs sources =
     (if noCache (opts cb) then \<lparr>disk = fs, logged = [], uncaught = None, result = Resolved\<rparr>
      else
        (let l = (Debug, Text (''caching build files to '' @
                   (case cacheFolder cb of None \<Rightarrow> ''undefined'' | Some d \<Rightarrow> d)))
         in case cacheFolder cb of
              None \<Rightarrow> \<lparr>disk = fs, logged = [l], uncaught = None, result = Rejected invalidArgType\<rparr>
            | Some d \<Rightarrow>
                (case ensureDir fs d of
                   Inl e \<Rightarrow> \<lparr>disk = fs, logged = [l], uncaught = None, result = Rejected e\<rparr>
                 | Inr fs' \<Rightarrow>
                     (let r = createPackage ar cb fs' sources
                      in r\<lparr>logged := l # logged r\<rparr>))))"

text \<open>
  An archiver run without incident: a file is stored under its name; a directory is
  stored with everything below it, each directory below it as an entry of its own
  whose name ends in a slash.
\<close>

fun entriesOf :: "string \<Rightarrow> fnode \<Rightarrow> zentry list" where
  "entriesOf name (File d) = [ZEntry name (Inr d)]"
| "entriesOf name (Dir es) =
     ZEntry (name @ ''/'') (Inr (Bytes [])) #
     concat (map (\<lambda>e. entriesOf (name @ ''/'' @ fst e) (snd e)) es)"
| "entriesOf name Special = []"

fun taskEntries :: "fnode \<Rightarrow> task \<Rightarrow> zentry list" where
  "taskEntries fs (AddFile src name) =
     (case lookupNode fs (resolve src) of Some (File d) \<Rightarrow> [ZEntry name (Inr d)] | _ \<Rightarrow> [])"
| "taskEntries fs (AddDirectory src name) =
     (case lookupNode fs (resolve src) of
        Some (Dir es) \<Rightarrow> concat (map (\<lambda>e. entriesOf (name @ ''/'' @ fst e) (snd e)) es)
      | _ \<Rightarrow> [])"

definition zipArchiver :: "string \<Rightarrow> archiver" where
  "zipArchiver bytes fs tasks =
     \<lparr>events = [], written = ZipArchive (concat (map (taskEntries fs) tasks)),
      pointer = bytes, outputClosed = True, beforeOpen = 0\<rparr>"

section \<open>Unpacking (CacheBuild.restore, _processZip, _processZipEntry, _copyZipEntry)\<close>

text \<open>
  The zip reader is opened with \<open>lazyEntries\<close>: each \<open>readEntry()\<close> call is answered by
  one \<open>entry\<close> event, or by \<open>end\<close> and, the file being closed automatically, \<open>close\<close>
  when no entry is left. The extraction is a state machine. \<open>requests\<close> counts the
  \<open>readEntry()\<close> calls not answered yet, \<open>promises\<close> is the array of the same name with
  the point each \<open>_processZipEntry\<close> call has reached.
\<close>

datatype phase = EnsuringDir | Opening | Streaming fdata | Fulfilled | Failed error

record extraction = world +
  remaining :: "zentry list"
  requests :: nat
  promises :: "(zentry \<times> phase) list"
  closed :: bool

text \<open>
  The reader, opened without \<open>strictFileNames\<close>, turns every backslash in the name
  of an entry into a slash and then checks the name: for an absolute path or a \<open>..\<close>
  segment it emits \<open>error\<close> on the zip file instead of the entry, and \<open>_processZip\<close>
  has no listener for that.
\<close>

definition isLetter :: "char \<Rightarrow> bool" where
  "isLetter c = ((65 \<le> (of_char c :: nat) \<and> (of_char c :: nat) \<le> 90) \<or>
                 (97 \<le> (of_char c :: nat) \<and> (of_char c :: nat) \<le> 122))"

definition slashed :: "string \<Rightarrow> string" where
  "slashed name = map (\<lambda>c. if c = CHR 0x5C then CHR ''/'' else c) name"

definition validateFileName :: "string \<Rightarrow> string option" where
  "validateFileName name =
     (if CHR 0x5C \<in> set name then Some (''invalid characters in fileName: '' @ name)
      else if (case name of c # d # _ \<Rightarrow> isLetter c \<and> d = CHR '':'' | _ \<Rightarrow> False) \<or>
              take 1 name = ''/''
      then Some (''absolute path: '' @ name)
      else if ''..'' \<in> set (splitSlash name) then Some (''invalid relative path: '' @ name)
      else None)"

text \<open>\<open>/\/$/.test(entry.fileName)\<close>\<close>

definition isDirectoryMarker :: "string \<Rightarrow> bool" where
  "isDirectoryMarker name = (name \<noteq> [] \<and> last name = CHR ''/'')"

text \<open>
  The reader answers a \<open>readEntry()\<close> call. With no entry left the \<open>close\<close> listener
  runs. An entry goes to the \<open>entry\<close> listener, which runs \<open>_processZipEntry\<close> up to
  its first \<open>await\<close>: for a directory marker that is all of it, \<open>readEntry()\<close> included.
\<close>

definition deliver :: "string \<Rightarrow> extraction \<Rightarrow> extraction" where
  "deliver destination s =
     (case remaining s of
        [] \<Rightarrow>
          s\<lparr>requests := requests s - 1, closed := True,
            logged := logged s @ [(Debug, Text ''Build copied from cache.'')]\<rparr>
      | e # es \<Rightarrow>
          (let entry = ZEntry (slashed (fileName e)) (stream e) in
           case validateFileName (fileName entry) of
             Some msg \<Rightarrow>
               s\<lparr>remaining := es, requests := requests s - 1,
                 uncaught := Some (Error None msg)\<rparr>
           | None \<Rightarrow>
               if isDirectoryMarker (fileName entry) then
                 s\<lparr>remaining := es, requests := requests s - 1 + 1,
                   promises := promises s @ [(entry, Fulfilled)]\<rparr>
               else
                 s\<lparr>remaining := es, requests := requests s - 1,
                   promises := promises s @ [(entry, EnsuringDir)]\<rparr>))"

text \<open>
  One of the started \<open>_processZipEntry\<close> calls goes on: \<open>ensureDir\<close> returns, the read
  stream is opened and the write stream created, or the write stream closes and
  \<open>readEntry()\<close> is called. A rejection is logged by the \<open>catch\<close> of \<open>_processZip\<close>.
\<close>

definition advance :: "string \<Rightarrow> nat \<Rightarrow> extraction \<Rightarrow> extraction option" where
  "advance destination i s =
     (if length (promises s) \<le> i then None
      else
        (let e = fst (promises s ! i) in
         case snd (promises s ! i) of
           EnsuringDir \<Rightarrow>
             (case ensureDir (disk s) (joinPaths [destination, dirname (fileName e)]) of
                Inl err \<Rightarrow>
                  Some (s\<lparr>promises := (promises s)[i := (e, Failed err)],
                          logged := logged s @ [(Warn, Thrown err)]\<rparr>)
              | Inr fs' \<Rightarrow>
                  Some (s\<lparr>disk := fs', promises := (promises s)[i := (e, Opening)]\<rparr>))
         | Opening \<Rightarrow>
             (case stream e of
                Inl err \<Rightarrow>
                  Some (s\<lparr>promises := (promises s)[i := (e, Failed err)],
                          logged := logged s @ [(Warn, Thrown err)]\<rparr>)
              | Inr d \<Rightarrow>
                  (case writeFile (disk s) (joinPaths [destination, fileName e]) (Bytes []) of
                     Inl err \<Rightarrow> Some (s\<lparr>uncaught := Some err\<rparr>)
                   | Inr fs' \<Rightarrow>
                       Some (s\<lparr>disk := fs', promises := (promises s)[i := (e, Streaming d)]\<rparr>)))
         | Streaming d \<Rightarrow>
             (case writeFile (disk s) (joinPaths [destination, fileName e]) d of
                Inl err \<Rightarrow> Some (s\<lparr>uncaught := Some err\<rparr>)
              | Inr fs' \<Rightarrow>
                  Some (s\<lparr>disk := fs', promises := (promises s)[i := (e, Fulfilled)],
                          requests := requests s + 1\<rparr>))
         | Fulfilled \<Rightarrow> None
         | Failed err \<Rightarrow> None))"

text \<open>
  The steps of an extraction, in any order the event loop may take them. Nothing
  happens after an uncaught error.
\<close>

inductive Step :: "string \<Rightarrow> extraction \<Rightarrow> extraction \<Rightarrow> bool" for destination where
  Deliver: "\<lbrakk>uncaught s = None; 0 < requests s; \<not> closed s\<rbrakk>
              \<Longrightarrow> Step destination s (deliver destination s)"
| Advance: "\<lbrakk>uncaught s = None; advance destination i s = Some s'\<rbrakk>
              \<Longrightarrow> Step destination s s'"

definition openZip :: "fnode \<Rightarrow> logline list \<Rightarrow> zentry list \<Rightarrow> extraction" where
  "openZip fs l es =
     \<lparr>disk = fs, logged = l, uncaught = None,
      remaining = es, requests = 1, promises = [], closed = False\<rparr>"

text \<open>Entries in extraction, and entries with an open write stream.\<close>

fun active :: "phase \<Rightarrow> bool" where
  "active EnsuringDir = True"
| "active Opening = True"
| "active (Streaming d) = True"
| "active Fulfilled = False"
| "active (Failed err) = False"

fun streaming :: "phase \<Rightarrow> bool" where
  "streaming (Streaming d) = True"
| "streaming ph = False"

definition inFlight :: "extraction \<Rightarrow> nat" where
  "inFlight s = length (filter (\<lambda>p. active (snd p)) (promises s))"

definition openStreams :: "extraction \<Rightarrow> nat" where
  "openStreams s = length (filter (\<lambda>p. streaming (snd p)) (promises s))"

text \<open>A deterministic run: the reader first, then the first entry in extraction.\<close>

fun firstActive :: "(zentry \<times> phase) list \<Rightarrow> nat option" where
  "firstActive [] = None"
| "firstActive (p # ps) =
     (if active (snd p) then Some 0 else map_option Suc (firstActive ps))"

definition step :: "string \<Rightarrow> extraction \<Rightarrow> extraction option" where
  "step destination s =
     (if uncaught s \<noteq> None then None
      else if 0 < requests s \<and> \<not> closed s then Some (deliver destination s)
      else (case firstActive (promises s) of
              None \<Rightarrow> None
            | Some i \<Rightarrow> advance destination i s))"

text \<open>\<open>await Promise.all(promises)\<close> in the \<open>close\<close> listener.\<close>

fun firstFailure :: "(zentry \<times> phase) list \<Rightarrow> error option" where
  "firstFailure [] = None"
| "firstFailure (p # ps) =
     (case snd p of Failed err \<Rightarrow> Some err | _ \<Rightarrow> firstFailure ps)"

definition aggregate :: "(zentry \<times> phase) list \<Rightarrow> promise" where
  "aggregate ps =
     (case firstFailure ps of
        Some err \<Rightarrow> Rejected err
      | None \<Rightarrow> if list_all (\<lambda>p. snd p = Fulfilled) ps then Resolved else Pending)"

definition settled :: "extraction \<Rightarrow> promise" where
  "settled s = (if closed s then aggregate (promises s) else Pending)"

fun phaseWeight :: "phase \<Rightarrow> nat" where
  "phaseWeight EnsuringDir = 5"
| "phaseWeight Opening = 4"
| "phaseWeight (Streaming d) = 3"
| "phaseWeight Fulfilled = 0"
| "phaseWeight (Failed err) = 0"

definition weight :: "extraction \<Rightarrow> nat" where
  "weight s =
     4 * length (remaining s) + 2 * requests s +
     sum_list (map (\<lambda>p. phaseWeight (snd p)) (promises s)) +
     (if uncaught s = None then 1 else 0)"

text \<open>Every step makes the weight smaller, so an extraction cannot go on for ever.\<close>

lemma nth_le_sum_list_map:
  "i < length ps \<Longrightarrow> (f (ps ! i) :: nat) \<le> sum_list (map f ps)"
  by (induction ps arbitrary: i) (auto simp: nth_Cons trans_le_add2 split: nat.splits)

lemma deliver_weight:
  "0 < requests s \<Longrightarrow> uncaught s = None \<Longrightarrow> weight (deliver d s) < weight s"
  by (auto simp: deliver_def weight_def Let_def split: list.splits option.splits)

lemma advance_weight:
  assumes "advance d i s = Some s'" and "uncaught s = None"
  shows "weight s' < weight s"
proof -
  let ?W = "\<lambda>p. phaseWeight (snd p)"
  from assms(1) have i: "i < length (promises s)"
    by (auto simp: advance_def split: if_splits)
  obtain e ph where p: "promises s ! i = (e, ph)"
    by (cases "promises s ! i")
  have le: "phaseWeight ph \<le> sum_list (map ?W (promises s))"
    using nth_le_sum_list_map [OF i, of ?W] p by simp
  have upd: "sum_list (map ?W ((promises s)[i := (e, ph')]))
      = sum_list (map ?W (promises s)) + phaseWeight ph' - phaseWeight ph" for ph'
    using i p by (simp add: map_update sum_list_update)
  show ?thesis
    using assms i p le
    by (cases ph)
       (auto simp: advance_def weight_def upd Let_def split: sum.splits)
qed

lemma step_weight: "step d s = Some s' \<Longrightarrow> weight s' < weight s"
  by (auto simp: step_def deliver_weight advance_weight split: if_splits option.splits)

text \<open>The run to the end: to the state in which no step is left.\<close>

function run :: "string \<Rightarrow> extraction \<Rightarrow> extraction" where
  "run destination s =
     (case step destination s of None \<Rightarrow> s | Some s' \<Rightarrow> run destination s')"
  by pat_completeness auto
termination
  by (relation "measure (\<lambda>(d, s). weight s)") (auto simp: step_weight)

declare run.simps [simp del]

text \<open>
  \<open>_processZip\<close>: \<open>yauzl.open\<close> fails on a path that is not a zip file; else the entries
  are extracted, and the promise is settled by the \<open>close\<close> listener, if it ever runs.
\<close>

definition processZip :: "fnode \<Rightarrow> logline list \<Rightarrow> string \<Rightarrow> string \<Rightarrow> outcome" where
  "processZip fs l source destination =
     (case lookupNode fs (resolve source) of
        Some (File (ZipArchive es)) \<Rightarrow>
          (let s = run destination (openZip fs l es)
           in \<lparr>disk = disk s, logged = logged s, uncaught = uncaught s, result = settled s\<rparr>)
      | Some (File (Bytes b)) \<Rightarrow>
          \<lparr>disk = fs, logged = l, uncaught = None,
           result = Rejected (Error None ''end of central directory record signature not found'')\<rparr>
      | Some n \<Rightarrow>
          \<lparr>disk = fs, logged = l, uncaught = None, result = Rejected (sysError ''EISDIR'')\<rparr>
      | None \<Rightarrow>
          \<lparr>disk = fs, logged = l, uncaught = None, result = Rejected (sysError ''ENOENT'')\<rparr>)"

text \<open>\<open>restore\<close> is an \<open>async\<close> method: an exception of \<open>path.join\<close> rejects its promise.\<close>

definition restore :: "'a CacheBuild \<Rightarrow> fnode \<Rightarrow> string \<Rightarrow> outcome" where
  "restore cb fs build =
     (case path_join [cacheFolder cb, Some (zipName (hash cb))] of
        Inl e \<Rightarrow> \<lparr>disk = fs, logged = [], uncaught = None, result = Rejected e\<rparr>
      | Inr source \<Rightarrow> processZip fs [(Debug, Text ''Opening cached zip file.'')] source build)"

section \<open>Notions used in the properties\<close>

text \<open>
  Path segments. A segment is plain when it is a name: not empty, without slash, and
  neither \<open>.\<close> nor \<open>..\<close>. The segments that \<open>normalizeString\<close> keeps are in normal
  form: names, after leading \<open>..\<close> segments in a relative path. \<open>rooted\<close> writes
  segments as a path.
\<close>

definition okSegment :: "string \<Rightarrow> bool" where
  "okSegment s = (s \<noteq> [] \<and> CHR ''/'' \<notin> set s \<and> s \<noteq> ''.'')"

definition plainSegment :: "string \<Rightarrow> bool" where
  "plainSegment s = (okSegment s \<and> s \<noteq> ''..'')"

definition normalForm :: "bool \<Rightarrow> string list \<Rightarrow> bool" where
  "normalForm allowAboveRoot res =
     (list_all okSegment res \<and>
      (if allowAboveRoot then ''..'' \<notin> set (dropWhile (\<lambda>s. s = ''..'') res)
       else ''..'' \<notin> set res))"

definition rooted :: "bool \<Rightarrow> string list \<Rightarrow> string" where
  "rooted isAbsolute segs = (if isAbsolute then ''/'' else []) @ join ''/'' segs"

text \<open>
  Option values. A value is plain when it is not set, or is not empty and has no
  \<open>|\<close> in it.
\<close>

definition plainValue :: "string option \<Rightarrow> bool" where
  "plainValue v = (case v of None \<Rightarrow> True | Some s \<Rightarrow> s \<noteq> [] \<and> CHR ''|'' \<notin> set s)"

definition plainOptions :: "'a options_scheme \<Rightarrow> bool" where
  "plainOptions c =
     (plainValue (tagName c) \<and> plainValue (themeFile c) \<and>
      plainValue (indexFile c) \<and> plainValue (appTitle c))"

text \<open>
  Events of the archiver. An event is benign when it is a warning whose error has the
  code \<open>ENOENT\<close>; \<open>eventLog\<close> is the line the listeners write for an event.
\<close>

definition benign :: "archiverEvent \<Rightarrow> bool" where
  "benign ev = (case ev of Warning err \<Rightarrow> code err = Some ''ENOENT'' | Failure err \<Rightarrow> False)"

definition eventError :: "archiverEvent \<Rightarrow> error" where
  "eventError ev = (case ev of Warning err \<Rightarrow> err | Failure err \<Rightarrow> err)"

definition eventLog :: "archiverEvent \<Rightarrow> logline" where
  "eventLog ev = (if benign ev then Warn else Err, Thrown (eventError ev))"

text \<open>What the \<open>close\<close> listener of the output stream writes to the log.\<close>

definition closeLog :: "string \<Rightarrow> logline list" where
  "closeLog bytes =
     [(Debug, Text ''Cache build saved.''), (Debug, Text (bytes @ '' total bytes.''))]"

text \<open>
  Tokens of an extraction: a \<open>readEntry()\<close> call that is not answered yet, an entry in
  extraction, and an entry whose extraction has failed.
\<close>

fun failed :: "phase \<Rightarrow> bool" where
  "failed (Failed err) = True"
| "failed ph = False"

definition failures :: "extraction \<Rightarrow> nat" where
  "failures s = length (filter (\<lambda>p. failed (snd p)) (promises s))"

definition tokens :: "extraction \<Rightarrow> nat" where
  "tokens s = requests s + inFlight s + failures s"

text \<open>
  The trees of the round trip: a directory with \<open>a.txt\<close> and \<open>sub/b.txt\<close>, the archive
  of it, the home directory \<open>/home/u\<close> and the cache folder below \<open>.config\<close> with one
  file in it.
\<close>

abbreviation sampleTree :: "fdata \<Rightarrow> fdata \<Rightarrow> fnode" where
  "sampleTree a b \<equiv> Dir [(''a.txt'', File a), (''sub'', Dir [(''b.txt'', File b)])]"

abbreviation sampleArchive :: "fdata \<Rightarrow> fdata \<Rightarrow> fdata" where
  "sampleArchive a b \<equiv> ZipArchive [ZEntry ''a.txt'' (Inr a), ZEntry ''sub/b.txt'' (Inr b)]"

abbreviation homeDir :: "(string \<times> fnode) list \<Rightarrow> fnode" where
  "homeDir es \<equiv> Dir [(''home'', Dir [(''u'', Dir es)])]"

abbreviation cacheDir :: "string \<Rightarrow> fdata \<Rightarrow> fnode" where
  "cacheDir name d \<equiv>
     Dir [(''api-console'', Dir [(''cache'', Dir [(''builds'', Dir [(name, File d)])])])]"

abbreviation linuxProcess :: process where
  "linuxProcess \<equiv> \<lparr>platform = ''linux'', env = [''HOME'' \<mapsto> ''/home/u'']\<rparr>"

section \<open>Facts about paths\<close>

text \<open>
  A path in normal form is a fixed point of \<open>path.normalize\<close>, and joining a name to
  it appends a slash and the name.
\<close>

lemma splitSlash_not_Nil [simp]: "splitSlash s \<noteq> []"
  by (induction s) (auto split: list.splits)

lemma splitSlash_append:
  "splitSlash (a @ CHR ''/'' # b) = splitSlash a @ splitSlash b"
  by (induction a) (auto split: list.splits)

lemma splitSlash_plain: "CHR ''/'' \<notin> set s \<Longrightarrow> splitSlash s = [s]"
  by (induction s) auto

lemma splitSlash_no_slash: "x \<in> set (splitSlash s) \<Longrightarrow> CHR ''/'' \<notin> set x"
  by (induction s arbitrary: x) (auto split: if_splits list.splits)

lemma join_Cons: "join sep (x # xs) = (if xs = [] then x else x @ sep @ join sep xs)"
  by (cases xs) simp_all

lemma join_snoc: "xs \<noteq> [] \<Longrightarrow> join sep (xs @ [k]) = join sep xs @ sep @ k"
  by (induction sep xs rule: join.induct) simp_all

lemma splitSlash_join:
  "xs \<noteq> [] \<Longrightarrow> \<forall>x\<in>set xs. CHR ''/'' \<notin> set x \<Longrightarrow> splitSlash (join ''/'' xs) = xs"
proof (induction xs)
  case Nil
  then show ?case by simp
next
  case (Cons x xs)
  show ?case
  proof (cases xs)
    case Nil
    with Cons.prems show ?thesis by (simp add: splitSlash_plain)
  next
    case (Cons y ys)
    with Cons.IH Cons.prems have "splitSlash (join ''/'' xs) = xs" by simp
    with Cons Cons.prems show ?thesis
      using splitSlash_append [of x "join ''/'' xs"] by (simp add: splitSlash_plain)
  qed
qed

lemma join_eq_Nil: "\<forall>x\<in>set xs. x \<noteq> [] \<Longrightarrow> join sep xs = [] \<longleftrightarrow> xs = []"
  by (induction sep xs rule: join.induct) simp_all

lemma hd_join: "xs \<noteq> [] \<Longrightarrow> hd xs \<noteq> [] \<Longrightarrow> hd (join sep xs) = hd (hd xs)"
  by (induction sep xs rule: join.induct) simp_all

lemma last_join:
  "xs \<noteq> [] \<Longrightarrow> \<forall>x\<in>set xs. x \<noteq> [] \<Longrightarrow> last (join sep xs) = last (last xs)"
  by (induction sep xs rule: join.induct) (simp_all add: join_eq_Nil)

lemma normalForm_step:
  assumes "normalForm a res" and "CHR ''/'' \<notin> set seg"
  shows "normalForm a (normalizeStep a res seg)"
proof -
  have bl: "''..'' \<notin> set (dropWhile (\<lambda>s. s = ''..'') (butlast res))"
    if "''..'' \<notin> set (dropWhile (\<lambda>s. s = ''..'') res)"
    using that by (induction res) (auto split: if_splits dest: in_set_butlastD)
  have ap: "''..'' \<notin> set (dropWhile (\<lambda>s. s = ''..'') (res @ [x]))"
    if "''..'' \<notin> set (dropWhile (\<lambda>s. s = ''..'') res)" "x \<noteq> ''..'' \<or> res = [] \<or> last res = ''..''" for x
    using that
  proof (induction res)
    case Nil
    then show ?case by simp
  next
    case (Cons y res)
    show ?case
    proof (cases "y = ''..''")
      case True
      with Cons show ?thesis by (auto split: if_splits)
    next
      case False
      have "x \<noteq> ''..''"
      proof
        assume "x = ''..''"
        with Cons.prems(2) have "last (y # res) = ''..''" by simp
        moreover have "last (y # res) \<in> set (y # res)" by (rule last_in_set) simp
        ultimately show False using Cons.prems(1) False by simp
      qed
      with False Cons.prems(1) show ?thesis by simp
    qed
  qed
  have all_bl: "list_all okSegment (butlast res)" if "list_all okSegment res"
    using that by (induction res) auto
  show ?thesis
    using assms bl ap [of seg] all_bl
    by (auto simp: normalForm_def normalizeStep_def okSegment_def list_all_iff
        dest: in_set_butlastD)
qed

lemma normalForm_foldl:
  "normalForm a acc \<Longrightarrow> \<forall>x\<in>set xs. CHR ''/'' \<notin> set x
     \<Longrightarrow> normalForm a (foldl (normalizeStep a) acc xs)"
  by (induction xs arbitrary: acc) (simp_all add: normalForm_step)

lemma normalForm_normalizeSegments: "normalForm a (normalizeSegments a path)"
  unfolding normalizeSegments_def
  by (rule normalForm_foldl) (simp_all add: normalForm_def splitSlash_no_slash)

lemma dropWhile_dotdot_append:
  "''..'' \<notin> set (dropWhile (\<lambda>s. s = ''..'') (acc @ ''..'' # xs))
     \<Longrightarrow> acc = [] \<or> last acc = ''..''"
  by (induction acc) (auto split: if_splits)

lemma normalForm_fixed:
  "normalForm a (acc @ xs) \<Longrightarrow> foldl (normalizeStep a) acc xs = acc @ xs"
proof (induction xs arbitrary: acc)
  case Nil
  then show ?case by simp
next
  case (Cons x xs)
  have ok: "okSegment x"
    using Cons.prems by (simp add: normalForm_def)
  have "normalizeStep a acc x = acc @ [x]"
  proof (cases "x = ''..''")
    case True
    with Cons.prems have "a" and "acc = [] \<or> last acc = ''..''"
      using dropWhile_dotdot_append [of acc xs]
      by (auto simp: normalForm_def split: if_splits)
    with True show ?thesis by (auto simp: normalizeStep_def)
  next
    case False
    with ok show ?thesis by (simp add: normalizeStep_def okSegment_def)
  qed
  moreover have "normalForm a ((acc @ [x]) @ xs)"
    using Cons.prems by simp
  ultimately show ?case
    using Cons.IH [of "acc @ [x]"] by simp
qed

lemma normalForm_snoc:
  "normalForm a res \<Longrightarrow> plainSegment k \<Longrightarrow> normalForm a (res @ [k])"
  by (induction res) (auto simp: normalForm_def plainSegment_def split: if_splits)

lemma normalize_rooted:
  assumes "normalForm (\<not> isAbsolute) segs" and "segs \<noteq> []"
  shows "normalize (rooted isAbsolute segs) = rooted isAbsolute segs"
proof -
  have ne: "\<forall>x\<in>set segs. x \<noteq> []" and ns: "\<forall>x\<in>set segs. CHR ''/'' \<notin> set x"
    using assms(1) by (auto simp: normalForm_def okSegment_def list_all_iff)
  have j: "join ''/'' segs \<noteq> []"
    using ne assms(2) by (simp add: join_eq_Nil)
  have h: "hd (join ''/'' segs) \<noteq> CHR ''/''"
    using hd_join [of segs "''/''"] ne ns assms(2)
    by (metis hd_in_set list.set_sel(1))
  have l: "last (join ''/'' segs) \<noteq> CHR ''/''"
    using last_join [of segs "''/''"] ne ns assms(2)
    by (metis last_in_set)
  have sp: "splitSlash (join ''/'' segs) = segs"
    using splitSlash_join assms(2) ns by blast
  have fx: "foldl (normalizeStep (\<not> isAbsolute)) [] segs = segs"
    using normalForm_fixed [of "\<not> isAbsolute" "[]" segs] assms(1) by simp
  show ?thesis
  proof (cases isAbsolute)
    case True
    then show ?thesis
      using j l sp fx
      by (simp add: rooted_def normalize_def normalizeString_def normalizeSegments_def
          normalizeStep_def)
  next
    case False
    then show ?thesis
      using j h l sp fx
      by (simp add: rooted_def normalize_def normalizeString_def normalizeSegments_def)
  qed
qed

lemma normalForm_append:
  "normalForm a res \<Longrightarrow> list_all plainSegment ks \<Longrightarrow> normalForm a (res @ ks)"
proof (induction ks arbitrary: res)
  case Nil
  then show ?case by simp
next
  case (Cons k ks)
  from Cons.prems have "normalForm a (res @ [k])"
    using normalForm_snoc [of a res k] by simp
  moreover from Cons.prems have "list_all plainSegment ks" by simp
  ultimately have "normalForm a ((res @ [k]) @ ks)"
    by (rule Cons.IH)
  then show ?case by simp
qed

lemma joinPaths_rooted_snoc:
  assumes "normalForm (\<not> isAbsolute) segs" and "segs \<noteq> []" and "plainSegment k"
  shows "joinPaths [rooted isAbsolute segs, k] = rooted isAbsolute segs @ ''/'' @ k"
proof -
  have ne: "\<forall>x\<in>set segs. x \<noteq> []"
    using assms(1) by (auto simp: normalForm_def okSegment_def list_all_iff)
  have r: "rooted isAbsolute segs \<noteq> []"
    using ne assms(2) by (simp add: rooted_def join_eq_Nil)
  have k: "k \<noteq> []"
    using assms(3) by (simp add: plainSegment_def okSegment_def)
  have "rooted isAbsolute segs @ ''/'' @ k = rooted isAbsolute (segs @ [k])"
    using assms(2) by (simp add: rooted_def join_snoc)
  moreover have "normalize (rooted isAbsolute (segs @ [k])) = rooted isAbsolute (segs @ [k])"
    using assms by (intro normalize_rooted normalForm_snoc) simp_all
  ultimately show ?thesis
    using r k by (simp add: joinPaths_def)
qed

lemma joinPaths_plain_suffix:
  assumes "list_all plainSegment ks" and "ks \<noteq> []"
  shows "\<exists>isAbsolute segs. joinPaths (d # ks) = rooted isAbsolute (segs @ ks) \<and>
           normalForm (\<not> isAbsolute) (segs @ ks)"
proof -
  have ne: "\<forall>x\<in>set ks. x \<noteq> []" and ns: "\<forall>x\<in>set ks. CHR ''/'' \<notin> set x"
    using assms(1) by (auto simp: plainSegment_def okSegment_def list_all_iff)
  have f: "filter (\<lambda>s. s \<noteq> []) ks = ks"
    using ne by (simp add: filter_id_conv)
  show ?thesis
  proof (cases "d = []")
    case True
    have nf: "normalForm True ([] @ ks)"
      using normalForm_append [of True "[]" ks] assms(1) by (simp add: normalForm_def)
    then have "normalize (rooted False ks) = rooted False ks"
      using normalize_rooted [of False ks] assms(2) by simp
    with True f assms(2) nf show ?thesis
      by (intro exI [of _ False] exI [of _ "[]"]) (simp add: joinPaths_def rooted_def)
  next
    case False
    define a where "a = (hd d \<noteq> CHR ''/'')"
    define segs where "segs = normalizeSegments a d"
    define p where "p = d @ ''/'' @ join ''/'' ks"
    have nf: "normalForm a (segs @ ks)"
      unfolding segs_def using normalForm_normalizeSegments assms(1) by (rule normalForm_append)
    have j: "join ''/'' (d # ks) = p"
      using assms(2) by (simp add: p_def join_Cons)
    have sp: "splitSlash p = splitSlash d @ ks"
      using splitSlash_append [of d "join ''/'' ks"] splitSlash_join [OF assms(2) ns]
      by (simp add: p_def)
    have "normalizeSegments a p = foldl (normalizeStep a) segs ks"
      by (simp add: normalizeSegments_def sp segs_def)
    also have "\<dots> = segs @ ks"
      using nf by (rule normalForm_fixed)
    finally have n: "normalizeSegments a p = segs @ ks" .
    have jn: "join ''/'' (segs @ ks) \<noteq> []"
      using nf assms(2) join_eq_Nil [of "segs @ ks" "''/''"]
      by (auto simp: normalForm_def okSegment_def list_all_iff)
    have "last p = last (join ''/'' ks)"
      using ne assms(2) by (simp add: p_def join_eq_Nil)
    also have "\<dots> = last (last ks)"
      using last_join [OF assms(2) ne] .
    finally have l: "last p \<noteq> CHR ''/''"
      using ns ne assms(2) by (metis last_in_set)
    have h: "hd p = hd d"
      using False by (simp add: p_def)
    have "normalize p = rooted (\<not> a) (segs @ ks)"
      using False l h n jn
      by (auto simp: normalize_def normalizeString_def rooted_def a_def p_def Let_def)
    with False f j nf show ?thesis
      by (intro exI [of _ "\<not> a"] exI [of _ segs]) (simp add: joinPaths_def)
  qed
qed

lemma hexDigit_in: "hexDigit n \<in> set ''0123456789abcdef''"
  unfolding hexDigit_def by (rule nth_mem) simp

lemma hexDigit_not_slash: "CHR ''/'' \<noteq> hexDigit n"
  using hexDigit_in [of n] by auto

lemma digestHex_no_slash: "CHR ''/'' \<notin> set (digestHex bs)"
  by (induction bs) (simp_all add: digestHex_def hexByte_def hexDigit_not_slash)

lemma plainSegment_zipName: "plainSegment (zipName (Some (createHash sha256 os)))"
proof -
  show ?thesis
    by (auto simp: plainSegment_def okSegment_def zipName_def createHash_def digestHex_no_slash)
qed

lemma join_append3:
  "join ''/'' (segs @ [a, b, c]) =
     (if segs = [] then [] else join ''/'' segs @ ''/'') @ a @ ''/'' @ b @ ''/'' @ c"
  by (induction "''/''" segs rule: join.induct) simp_all

lemma locateAppDir_rooted:
  assumes "fst (locateAppDir proc pf) = Inr dir"
  shows "\<exists>isAbsolute segs.
           dir = rooted isAbsolute (segs @ [''api-console'', ''cache'', ''builds'']) \<and>
           normalForm (\<not> isAbsolute) (segs @ [''api-console'', ''cache'', ''builds''])"
proof -
  from assms obtain base where "dir = joinPaths [base, ''api-console'', ''cache'', ''builds'']"
    by (auto simp: locateAppDir_def path_join_def split: sum.splits)
  then show ?thesis
    using joinPaths_plain_suffix [of "[''api-console'', ''cache'', ''builds'']" base]
    by (simp add: plainSegment_def okSegment_def)
qed

subsection \<open>The paths of the examples\<close>

lemma paths_eval:
  "joinPaths [''/home/u'', ''.config''] = ''/home/u/.config''"
  "joinPaths [''/home/u/.config'', ''api-console'', ''cache'', ''builds'']
     = ''/home/u/.config/api-console/cache/builds''"
  "joinPaths [''/home/u/build'', ''a.txt''] = ''/home/u/build/a.txt''"
  "joinPaths [''/home/u/build'', ''sub''] = ''/home/u/build/sub''"
  "joinPaths [''/home/u/out'', dirname ''a.txt''] = ''/home/u/out''"
  "joinPaths [''/home/u/out'', dirname ''sub/b.txt''] = ''/home/u/out/sub''"
  "joinPaths [''/home/u/out'', ''a.txt''] = ''/home/u/out/a.txt''"
  "joinPaths [''/home/u/out'', ''sub/b.txt''] = ''/home/u/out/sub/b.txt''"
  by (simp_all add: joinPaths_def normalize_def normalizeString_def normalizeSegments_def
      normalizeStep_def dirname_def)

lemma resolve_eval:
  "resolve ''/home/u/.config/api-console/cache/builds''
     = [''home'', ''u'', ''.config'', ''api-console'', ''cache'', ''builds'']"
  "resolve ''/home/u/build'' = [''home'', ''u'', ''build'']"
  "resolve ''/home/u/build/a.txt'' = [''home'', ''u'', ''build'', ''a.txt'']"
  "resolve ''/home/u/build/sub'' = [''home'', ''u'', ''build'', ''sub'']"
  "resolve ''/home/u/out'' = [''home'', ''u'', ''out'']"
  "resolve ''/home/u/out/sub'' = [''home'', ''u'', ''out'', ''sub'']"
  "resolve ''/home/u/out/a.txt'' = [''home'', ''u'', ''out'', ''a.txt'']"
  "resolve ''/home/u/out/sub/b.txt'' = [''home'', ''u'', ''out'', ''sub'', ''b.txt'']"
  by (simp_all add: resolve_def normalizeSegments_def normalizeStep_def)

lemma sample_paths:
  "joinPaths [''/home/u/.config/api-console/cache/builds'', ''abcd.zip'']
     = ''/home/u/.config/api-console/cache/builds/abcd.zip''"
  "resolve ''/home/u/.config/api-console/cache/builds/abcd.zip''
     = [''home'', ''u'', ''.config'', ''api-console'', ''cache'', ''builds'', ''abcd.zip'']"
  by (simp_all add: joinPaths_def normalize_def normalizeString_def resolve_def
      normalizeSegments_def normalizeStep_def)

section \<open>Properties of the cache key\<close>

text \<open>
  C1. Two option objects that agree on \<open>tagName\<close>, \<open>themeFile\<close>, \<open>indexFile\<close>,
  \<open>appTitle\<close> and \<open>attributes\<close> get the same hash, whatever digest function is used
  and whatever the other options are (\<open>noCache\<close> and the extension part of each
  record, which may even be of different types).
\<close>

theorem createHash_tracked_fields_only:
  fixes c1 :: "'a options_scheme" and c2 :: "'b options_scheme"
  assumes "tagName c1 = tagName c2"
    and "themeFile c1 = themeFile c2"
    and "indexFile c1 = indexFile c2"
    and "appTitle c1 = appTitle c2"
    and "attributes c1 = attributes c2"
  shows "createHash sha256 c1 = createHash sha256 c2"
proof -
  have "hashParts c1 = hashParts c2"
    using assms by (simp add: hashParts_def)
  then have "hashMaterial c1 = hashMaterial c2"
    by (simp add: hashMaterial_def)
  then show ?thesis
    by (simp add: createHash_def)
qed

theorem createHash_tracked_fields_only_witness:
  "\<forall>sha256.
     createHash sha256
       \<lparr>tagName = Some ''6.0.0'', themeFile = None, indexFile = Some ''index.html'',
        appTitle = None, attributes = Some [AttrName ''proxy'', AttrObject [(''page'', ''docs'')]],
        noCache = False\<rparr>
     = createHash sha256
       \<lparr>tagName = Some ''6.0.0'', themeFile = None, indexFile = Some ''index.html'',
        appTitle = None, attributes = Some [AttrName ''proxy'', AttrObject [(''page'', ''docs'')]],
        noCache = True, \<dots> = ''verbose''\<rparr>"
proof
  fix sha256 :: "string \<Rightarrow> 8 word list"
  show "createHash sha256
       \<lparr>tagName = Some ''6.0.0'', themeFile = None, indexFile = Some ''index.html'',
        appTitle = None, attributes = Some [AttrName ''proxy'', AttrObject [(''page'', ''docs'')]],
        noCache = False\<rparr>
     = createHash sha256
       \<lparr>tagName = Some ''6.0.0'', themeFile = None, indexFile = Some ''index.html'',
        appTitle = None, attributes = Some [AttrName ''proxy'', AttrObject [(''page'', ''docs'')]],
        noCache = True, \<dots> = ''verbose''\<rparr>"
    by (rule createHash_tracked_fields_only) simp_all
qed

text \<open>
  C10. A tracked string option that is the empty string adds no fragment, so the hash
  is the one of the same options with that option not set; this holds for each of
  \<open>tagName\<close>, \<open>themeFile\<close>, \<open>indexFile\<close> and \<open>appTitle\<close>.
\<close>

theorem createHash_empty_string_as_absent:
  "fragment prefix (Some []) = [] \<and>
   createHash sha256 (c\<lparr>appTitle := Some []\<rparr>) = createHash sha256 (c\<lparr>appTitle := None\<rparr>) \<and>
   createHash sha256 (c\<lparr>tagName := Some []\<rparr>) = createHash sha256 (c\<lparr>tagName := None\<rparr>) \<and>
   createHash sha256 (c\<lparr>themeFile := Some []\<rparr>) = createHash sha256 (c\<lparr>themeFile := None\<rparr>) \<and>
   createHash sha256 (c\<lparr>indexFile := Some []\<rparr>) = createHash sha256 (c\<lparr>indexFile := None\<rparr>)"
  by (simp add: createHash_def hashMaterial_def hashParts_def fragment_def)

text \<open>
  C2, at a failing input. The hash is there to tell the cached builds apart, and each
  fragment carries the name of its option for that; but the separator is not escaped
  where it occurs in a value. The tag name \<open>6.0.0|tf=dark.css\<close> with no theme file
  and the tag name \<open>6.0.0\<close> with the theme file \<open>dark.css\<close> differ in two tracked
  options and give the same string to the digest, hence the same hash under every
  digest function: the two builds share one cache file.
\<close>

theorem createHash_separator_collision:
  "tagName \<lparr>tagName = Some ''6.0.0|tf=dark.css'', themeFile = None, indexFile = None,
            appTitle = None, attributes = None, noCache = False\<rparr>
     \<noteq> tagName \<lparr>tagName = Some ''6.0.0'', themeFile = Some ''dark.css'', indexFile = None,
            appTitle = None, attributes = None, noCache = False\<rparr> \<and>
   hashMaterial \<lparr>tagName = Some ''6.0.0|tf=dark.css'', themeFile = None, indexFile = None,
            appTitle = None, attributes = None, noCache = False\<rparr>
     = hashMaterial \<lparr>tagName = Some ''6.0.0'', themeFile = Some ''dark.css'', indexFile = None,
            appTitle = None, attributes = None, noCache = False\<rparr> \<and>
   (\<forall>sha256.
      createHash sha256 \<lparr>tagName = Some ''6.0.0|tf=dark.css'', themeFile = None,
            indexFile = None, appTitle = None, attributes = None, noCache = False\<rparr>
        = createHash sha256 \<lparr>tagName = Some ''6.0.0'', themeFile = Some ''dark.css'',
            indexFile = None, appTitle = None, attributes = None, noCache = False\<rparr>)"
  by (simp add: createHash_def hashMaterial_def hashParts_def fragment_def
      attributesFragment_def)

subsection \<open>Options without the separator in a value\<close>

text \<open>
  The hexadecimal form of a digest determines the digest, and the JSON text of an
  attributes array determines the array: an escaped string ends at the first quote
  that is not escaped, so what follows a serialised value is found again.
\<close>

lemma hexDigit_inj:
  assumes "hexDigit m = hexDigit n" and "m < 16" and "n < 16"
  shows "m = n"
proof -
  have "distinct ''0123456789abcdef''" by simp
  moreover have "m < length ''0123456789abcdef''" "n < length ''0123456789abcdef''"
    using assms by simp_all
  ultimately show ?thesis
    using assms(1) unfolding hexDigit_def
    using assms(2,3) by (simp add: nth_eq_iff_index_eq del: distinct.simps)
qed

lemma hexByte_inj: "hexByte v = hexByte w \<Longrightarrow> v = w"
proof -
  assume e: "hexByte v = hexByte w"
  have "unat v < 256" "unat w < 256"
    using unsigned_less [of v, where ?'a = nat] unsigned_less [of w, where ?'a = nat]
    by simp_all
  then have b: "unat v div 16 < 16" "unat w div 16 < 16" "unat v mod 16 < 16" "unat w mod 16 < 16"
    by simp_all
  from e have "hexDigit (unat v div 16) = hexDigit (unat w div 16)"
    and "hexDigit (unat v mod 16) = hexDigit (unat w mod 16)"
    by (simp_all add: hexByte_def)
  with b have "unat v div 16 = unat w div 16" and "unat v mod 16 = unat w mod 16"
    by (auto dest: hexDigit_inj)
  then have "unat v = unat w"
    by (metis div_mult_mod_eq)
  then show ?thesis by (simp add: word_unat_eq_iff)
qed

lemma digestHex_inj: "digestHex xs = digestHex ys \<Longrightarrow> xs = ys"
proof (induction xs arbitrary: ys)
  case Nil
  then show ?case by (cases ys) (simp_all add: digestHex_def hexByte_def)
next
  case (Cons x xs)
  then show ?case
  proof (cases ys)
    case Nil
    with Cons.prems show ?thesis by (simp add: digestHex_def hexByte_def)
  next
    case (Cons y ys')
    with Cons.prems have "hexByte x = hexByte y" and "digestHex xs = digestHex ys'"
      by (simp_all add: digestHex_def hexByte_def)
    with Cons.IH Cons show ?thesis by (simp add: hexByte_inj)
  qed
qed

lemma jsonEscape_code:
  assumes "jsonEscape c @ x = jsonEscape c' @ x'"
  shows "c = c' \<and> x = x'"
proof -
  have lt: "(of_char c :: nat) div 16 < 16" "(of_char c :: nat) mod 16 < 16"
    "(of_char c' :: nat) div 16 < 16" "(of_char c' :: nat) mod 16 < 16"
    using of_char_mod_256 [where ?'a = nat, of c] of_char_mod_256 [where ?'a = nat, of c']
    by (simp_all add: div_less_iff_less_mult)
  have ctrl: "c = c'"
    if "hexDigit (of_char c div 16) = hexDigit (of_char c' div 16)"
      and "hexDigit (of_char c mod 16) = hexDigit (of_char c' mod 16)"
  proof -
    from that lt have "(of_char c :: nat) div 16 = of_char c' div 16"
      and "(of_char c :: nat) mod 16 = of_char c' mod 16"
      by (auto dest: hexDigit_inj)
    then have "(of_char c :: nat) = of_char c'"
      by (metis div_mult_mod_eq)
    then show ?thesis by simp
  qed
  show ?thesis
    using assms ctrl
    by (auto simp: jsonEscape_def split: if_splits)
qed

lemma jsonEscape_not_quote: "jsonEscape c \<noteq> [] \<and> hd (jsonEscape c) \<noteq> CHR 0x22"
  by (simp add: jsonEscape_def)

lemma escaped_code:
  "concat (map jsonEscape s) @ CHR 0x22 # x = concat (map jsonEscape s') @ CHR 0x22 # x'
     \<Longrightarrow> s = s' \<and> x = x'"
proof (induction s arbitrary: s')
  case Nil
  show ?case
  proof (cases s')
    case Nil
    with Nil.prems show ?thesis by simp
  next
    case (Cons c cs)
    with Nil.prems jsonEscape_not_quote [of c] show ?thesis
      by (cases "jsonEscape c") auto
  qed
next
  case (Cons c cs)
  show ?case
  proof (cases s')
    case Nil
    with Cons.prems jsonEscape_not_quote [of c] show ?thesis
      by (cases "jsonEscape c") auto
  next
    case (Cons c' cs')
    with Cons.prems have "jsonEscape c @ (concat (map jsonEscape cs) @ CHR 0x22 # x)
        = jsonEscape c' @ (concat (map jsonEscape cs') @ CHR 0x22 # x')"
      by simp
    then have "c = c'" and "concat (map jsonEscape cs) @ CHR 0x22 # x
        = concat (map jsonEscape cs') @ CHR 0x22 # x'"
      using jsonEscape_code by blast+
    with Cons.IH Cons show ?thesis by simp
  qed
qed

lemma jsonString_code:
  "jsonString s @ x = jsonString s' @ x' \<Longrightarrow> s = s' \<and> x = x'"
  using escaped_code [of s x s' x'] by (simp add: jsonString_def)

lemma jsonMember_code:
  assumes "jsonMember kv @ x = jsonMember kv' @ x'"
  shows "kv = kv' \<and> x = x'"
proof -
  from assms have "jsonString (fst kv) @ ('':'' @ jsonString (snd kv) @ x)
      = jsonString (fst kv') @ ('':'' @ jsonString (snd kv') @ x')"
    by (simp add: jsonMember_def)
  from jsonString_code [OF this]
  have k: "fst kv = fst kv'" and "jsonString (snd kv) @ x = jsonString (snd kv') @ x'"
    by simp_all
  from jsonString_code [OF this(2)] have "snd kv = snd kv'" and "x = x'"
    by simp_all
  with k show ?thesis
    by (simp add: prod_eq_iff)
qed

lemma join_map_Cons:
  "join sep (y # map enc xs) = y @ concat (map (\<lambda>b. sep @ enc b) xs)"
  by (induction xs arbitrary: y) simp_all

lemma joined_code:
  assumes code: "\<And>a b x y. enc a @ x = enc b @ y \<Longrightarrow> a = b \<and> x = y"
    and start: "\<And>a. enc a \<noteq> [] \<and> hd (enc a) \<noteq> cl"
    and sep: "cl \<noteq> CHR '',''"
    and eq: "join '','' (map enc xs) @ cl # x = join '','' (map enc ys) @ cl # y"
  shows "xs = ys \<and> x = y"
proof -
  have tail: "concat (map (\<lambda>b. CHR '','' # enc b) us) @ cl # x
        = concat (map (\<lambda>b. CHR '','' # enc b) vs) @ cl # y \<Longrightarrow> us = vs \<and> x = y" for us vs
  proof (induction us arbitrary: vs)
    case Nil
    with sep show ?case by (cases vs) auto
  next
    case (Cons u us)
    show ?case
    proof (cases vs)
      case Nil
      with Cons.prems sep show ?thesis by auto
    next
      case (Cons v vs')
      with Cons.prems have "enc u @ (concat (map (\<lambda>b. CHR '','' # enc b) us) @ cl # x)
          = enc v @ (concat (map (\<lambda>b. CHR '','' # enc b) vs') @ cl # y)"
        by simp
      from code [OF this] Cons.IH Cons show ?thesis by simp
    qed
  qed
  show ?thesis
  proof (cases xs)
    case Nil
    show ?thesis
    proof (cases ys)
      case Nil
      with \<open>xs = []\<close> eq show ?thesis by simp
    next
      case (Cons b ys')
      with \<open>xs = []\<close> eq
      have "cl # x = enc b @ (concat (map (\<lambda>b. CHR '','' # enc b) ys') @ cl # y)"
        by (simp add: join_map_Cons)
      with start [of b] show ?thesis
        by (cases "enc b") auto
    qed
  next
    case (Cons a xs')
    show ?thesis
    proof (cases ys)
      case Nil
      with Cons eq
      have "enc a @ (concat (map (\<lambda>b. CHR '','' # enc b) xs') @ cl # x) = cl # y"
        by (simp add: join_map_Cons)
      with start [of a] show ?thesis
        by (cases "enc a") auto
    next
      case ys: (Cons b ys')
      with Cons eq have "enc a @ (concat (map (\<lambda>b. CHR '','' # enc b) xs') @ cl # x)
          = enc b @ (concat (map (\<lambda>b. CHR '','' # enc b) ys') @ cl # y)"
        by (simp add: join_map_Cons)
      from code [OF this] have "a = b"
        and "concat (map (\<lambda>b. CHR '','' # enc b) xs') @ cl # x
          = concat (map (\<lambda>b. CHR '','' # enc b) ys') @ cl # y"
        by simp_all
      from this(1) tail [OF this(2)] Cons ys show ?thesis by simp
    qed
  qed
qed

lemma jsonAttribute_code:
  assumes "jsonAttribute a @ x = jsonAttribute b @ y"
  shows "a = b \<and> x = y"
proof (cases a)
  case (AttrName s)
  show ?thesis
  proof (cases b)
    case (AttrName s')
    with \<open>a = AttrName s\<close> assms have "jsonString s @ x = jsonString s' @ y"
      by simp
    from jsonString_code [OF this] AttrName \<open>a = AttrName s\<close> show ?thesis
      by simp
  next
    case (AttrObject kvs)
    with \<open>a = AttrName s\<close> assms show ?thesis
      by (simp add: jsonString_def)
  qed
next
  case (AttrObject kvs)
  show ?thesis
  proof (cases b)
    case (AttrName s')
    with AttrObject assms show ?thesis
      by (simp add: jsonString_def)
  next
    case b: (AttrObject kvs')
    with AttrObject assms
    have "join '','' (map jsonMember kvs) @ CHR ''}'' # x
        = join '','' (map jsonMember kvs') @ CHR ''}'' # y"
      by simp
    have "kvs = kvs' \<and> x = y"
    proof (rule joined_code [where enc = jsonMember and cl = "CHR ''}''"])
      show "jsonMember kv @ u = jsonMember kv' @ v \<Longrightarrow> kv = kv' \<and> u = v" for kv kv' u v
        by (rule jsonMember_code)
      show "jsonMember kv \<noteq> [] \<and> hd (jsonMember kv) \<noteq> CHR ''}''" for kv
        by (simp add: jsonMember_def jsonString_def)
      show "CHR ''}'' \<noteq> CHR '',''" by simp
      show "join '','' (map jsonMember kvs) @ CHR ''}'' # x
        = join '','' (map jsonMember kvs') @ CHR ''}'' # y"
        by fact
    qed
    with AttrObject b show ?thesis by simp
  qed
qed

lemma JSON_stringify_inj:
  assumes "JSON_stringify as = JSON_stringify bs"
  shows "as = bs"
proof -
  from assms have eq: "join '','' (map jsonAttribute as) @ CHR '']'' # []
      = join '','' (map jsonAttribute bs) @ CHR '']'' # []"
    by (simp add: JSON_stringify_def)
  have "as = bs \<and> ([] :: string) = []"
  proof (rule joined_code [where enc = jsonAttribute and cl = "CHR '']''"])
    show "jsonAttribute a @ u = jsonAttribute b @ v \<Longrightarrow> a = b \<and> u = v" for a b u v
      by (rule jsonAttribute_code)
    show "jsonAttribute a \<noteq> [] \<and> hd (jsonAttribute a) \<noteq> CHR '']''" for a
      by (cases a) (simp_all add: jsonString_def)
    show "CHR '']'' \<noteq> CHR '',''" by simp
    show "join '','' (map jsonAttribute as) @ CHR '']'' # []
      = join '','' (map jsonAttribute bs) @ CHR '']'' # []"
      by (rule eq)
  qed
  then show ?thesis by simp
qed

text \<open>
  Each fragment starts with its own two characters, so with plain values the joined
  string can be taken apart again, one fragment after the other.
\<close>

lemma unsplit:
  assumes "s @ t = s' @ t'"
    and "CHR ''|'' \<notin> set s" and "CHR ''|'' \<notin> set s'"
    and "t = [] \<or> hd t = CHR ''|''" and "t' = [] \<or> hd t' = CHR ''|''"
  shows "s = s' \<and> t = t'"
  using assms
proof (induction s arbitrary: s')
  case Nil
  then show ?case by (cases s') auto
next
  case (Cons c cs)
  then show ?case by (cases s') auto
qed

lemma fragment_None: "fragment p None = []"
  by (simp add: fragment_def)

lemma fragment_Some: "s \<noteq> [] \<Longrightarrow> fragment p (Some s) = [p @ s]"
  by (simp add: fragment_def)

lemma plainValue_Some: "plainValue (Some s) \<longleftrightarrow> s \<noteq> [] \<and> CHR ''|'' \<notin> set s"
  by (simp add: plainValue_def)

lemma fragment_peel:
  assumes v: "plainValue v" "plainValue v'"
    and p: "2 \<le> length p"
    and r: "join ''|'' ps = [] \<or> take 2 (join ''|'' ps) \<noteq> take 2 p"
    and r': "join ''|'' ps' = [] \<or> take 2 (join ''|'' ps') \<noteq> take 2 p"
    and eq: "join ''|'' (fragment p v @ ps) = join ''|'' (fragment p v' @ ps')"
  shows "v = v' \<and> join ''|'' ps = join ''|'' ps'"
proof (cases v)
  case None
  show ?thesis
  proof (cases v')
    case None
    with \<open>v = None\<close> eq show ?thesis by (simp add: fragment_None)
  next
    case (Some s')
    with v(2) have "s' \<noteq> []" by (simp add: plainValue_Some)
    with None Some eq
    have "join ''|'' ps = p @ s' @ (if ps' = [] then [] else ''|'' @ join ''|'' ps')"
      by (auto simp: fragment_None fragment_Some join_Cons split: if_splits)
    then have "join ''|'' ps \<noteq> []" and "take 2 (join ''|'' ps) = take 2 p"
      using p by auto
    with r show ?thesis by simp
  qed
next
  case (Some s)
  with v(1) have s: "s \<noteq> []" "CHR ''|'' \<notin> set s"
    by (simp_all add: plainValue_Some)
  show ?thesis
  proof (cases v')
    case None
    with Some s eq
    have "join ''|'' ps' = p @ s @ (if ps = [] then [] else ''|'' @ join ''|'' ps)"
      by (auto simp: fragment_None fragment_Some join_Cons split: if_splits)
    then have "join ''|'' ps' \<noteq> []" and "take 2 (join ''|'' ps') = take 2 p"
      using p by auto
    with r' show ?thesis by simp
  next
    case s': (Some s')
    with v(2) have ns': "s' \<noteq> []" "CHR ''|'' \<notin> set s'"
      by (simp_all add: plainValue_Some)
    from eq Some s' s(1) ns'(1)
    have "s @ (if ps = [] then [] else ''|'' @ join ''|'' ps)
        = s' @ (if ps' = [] then [] else ''|'' @ join ''|'' ps')"
      by (auto simp: fragment_Some join_Cons split: if_splits)
    from unsplit [OF this s(2) ns'(2)]
    have "s = s'" and "(if ps = [] then [] else ''|'' @ join ''|'' ps)
        = (if ps' = [] then [] else ''|'' @ join ''|'' ps')"
      by simp_all
    with Some s' show ?thesis
      by (auto split: if_splits)
  qed
qed

lemma fragment_start:
  assumes "2 \<le> length p"
    and "join ''|'' ps = [] \<or> take 2 (join ''|'' ps) \<in> S"
  shows "join ''|'' (fragment p v @ ps) = [] \<or>
         take 2 (join ''|'' (fragment p v @ ps)) \<in> insert (take 2 p) S"
  using assms by (auto simp: fragment_def join_Cons split: option.splits)

lemma attributesFragment_start:
  "join ''|'' (attributesFragment a) = [] \<or>
   take 2 (join ''|'' (attributesFragment a)) \<in> {''a=''}"
  by (simp add: attributesFragment_def JSON_stringify_def split: option.splits)

lemma attributesFragment_inj:
  assumes "join ''|'' (attributesFragment a) = join ''|'' (attributesFragment b)"
  shows "a = b"
proof (cases a)
  case None
  with assms show ?thesis
    by (cases b) (simp_all add: attributesFragment_def JSON_stringify_def)
next
  case (Some as)
  show ?thesis
  proof (cases b)
    case None
    with Some assms show ?thesis
      by (simp add: attributesFragment_def JSON_stringify_def)
  next
    case b: (Some bs)
    with Some assms have "JSON_stringify as = JSON_stringify bs"
      by (simp add: attributesFragment_def JSON_stringify_def)
    with Some b show ?thesis
      by (simp add: JSON_stringify_inj)
  qed
qed

lemma hashMaterial_inj:
  fixes c1 :: "'a options_scheme" and c2 :: "'b options_scheme"
  assumes c: "plainOptions c1" "plainOptions c2"
    and eq: "hashMaterial c1 = hashMaterial c2"
  shows "tagName c1 = tagName c2 \<and> themeFile c1 = themeFile c2 \<and>
         indexFile c1 = indexFile c2 \<and> appTitle c1 = appTitle c2 \<and>
         attributes c1 = attributes c2"
proof -
  let ?A = "\<lambda>c :: 'c options_scheme. attributesFragment (attributes c)"
  let ?T = "\<lambda>c :: 'c options_scheme. fragment ''at='' (appTitle c) @ ?A c"
  let ?I = "\<lambda>c :: 'c options_scheme. fragment ''if='' (indexFile c) @ ?T c"
  let ?F = "\<lambda>c :: 'c options_scheme. fragment ''tf='' (themeFile c) @ ?I c"
  have sA: "join ''|'' (?A c) = [] \<or> take 2 (join ''|'' (?A c)) \<in> {''a=''}"
    for c :: "'c options_scheme"
    by (rule attributesFragment_start)
  have sT: "join ''|'' (?T c) = [] \<or> take 2 (join ''|'' (?T c)) \<in> {''at'', ''a=''}"
    for c :: "'c options_scheme"
    using fragment_start [where p = "''at=''" and v = "appTitle c", OF _ sA [of c]] by simp
  have sI: "join ''|'' (?I c) = [] \<or> take 2 (join ''|'' (?I c)) \<in> {''if'', ''at'', ''a=''}"
    for c :: "'c options_scheme"
    using fragment_start [where p = "''if=''" and v = "indexFile c", OF _ sT [of c]] by simp
  have sF: "join ''|'' (?F c) = [] \<or> take 2 (join ''|'' (?F c)) \<in> {''tf'', ''if'', ''at'', ''a=''}"
    for c :: "'c options_scheme"
    using fragment_start [where p = "''tf=''" and v = "themeFile c", OF _ sI [of c]] by simp
  from eq have e0: "join ''|'' (fragment ''tn='' (tagName c1) @ ?F c1)
      = join ''|'' (fragment ''tn='' (tagName c2) @ ?F c2)"
    by (simp add: hashMaterial_def hashParts_def)
  have 1: "tagName c1 = tagName c2 \<and> join ''|'' (?F c1) = join ''|'' (?F c2)"
    using c sF [of c1] sF [of c2] e0
    by (intro fragment_peel [where p = "''tn=''"]) (auto simp: plainOptions_def)
  have 2: "themeFile c1 = themeFile c2 \<and> join ''|'' (?I c1) = join ''|'' (?I c2)"
    using c sI [of c1] sI [of c2] 1
    by (intro fragment_peel [where p = "''tf=''"]) (auto simp: plainOptions_def)
  have 3: "indexFile c1 = indexFile c2 \<and> join ''|'' (?T c1) = join ''|'' (?T c2)"
    using c sT [of c1] sT [of c2] 2
    by (intro fragment_peel [where p = "''if=''"]) (auto simp: plainOptions_def)
  have 4: "appTitle c1 = appTitle c2 \<and> join ''|'' (?A c1) = join ''|'' (?A c2)"
    using c sA [of c1] sA [of c2] 3
    by (intro fragment_peel [where p = "''at=''"]) (auto simp: plainOptions_def)
  from 4 have "attributes c1 = attributes c2"
    by (simp add: attributesFragment_inj)
  with 1 2 3 4 show ?thesis by simp
qed

text \<open>
  How far the collision goes: it needs the separator in a value (or an empty string,
  which counts as not set). For options whose \<open>tagName\<close>, \<open>themeFile\<close>, \<open>indexFile\<close>
  and \<open>appTitle\<close> are plain, two option objects that differ in a tracked option give
  different strings to the digest, and the two hashes are then equal only if the
  digest function itself has the same value on these two different strings.
\<close>

lemma createHash_separates_plain_options:
  fixes c1 :: "'a options_scheme" and c2 :: "'b options_scheme"
  assumes "plainOptions c1" and "plainOptions c2"
    and "tagName c1 \<noteq> tagName c2 \<or> themeFile c1 \<noteq> themeFile c2 \<or>
         indexFile c1 \<noteq> indexFile c2 \<or> appTitle c1 \<noteq> appTitle c2 \<or>
         attributes c1 \<noteq> attributes c2"
  shows "hashMaterial c1 \<noteq> hashMaterial c2 \<and>
         (createHash sha256 c1 = createHash sha256 c2
            \<longrightarrow> sha256 (hashMaterial c1) = sha256 (hashMaterial c2))"
proof
  show "hashMaterial c1 \<noteq> hashMaterial c2"
    using hashMaterial_inj [OF assms(1,2)] assms(3) by blast
  show "createHash sha256 c1 = createHash sha256 c2
          \<longrightarrow> sha256 (hashMaterial c1) = sha256 (hashMaterial c2)"
    by (auto simp: createHash_def dest: digestHex_inj)
qed

lemma createHash_separates_plain_options_example:
  "hashMaterial \<lparr>tagName = Some ''6.0.0'', themeFile = None, indexFile = Some ''index.html'',
            appTitle = None, attributes = Some [AttrName ''a|b''], noCache = False\<rparr>
     \<noteq> hashMaterial \<lparr>tagName = Some ''6.0.0'', themeFile = None,
            indexFile = Some ''index.html'', appTitle = None,
            attributes = Some [AttrName ''a'', AttrName ''b''], noCache = False\<rparr>"
  using createHash_separates_plain_options
    [of "\<lparr>tagName = Some ''6.0.0'', themeFile = None, indexFile = Some ''index.html'',
            appTitle = None, attributes = Some [AttrName ''a|b''], noCache = False\<rparr>"
        "\<lparr>tagName = Some ''6.0.0'', themeFile = None, indexFile = Some ''index.html'',
            appTitle = None, attributes = Some [AttrName ''a'', AttrName ''b''],
            noCache = False\<rparr>"]
  by (simp add: plainOptions_def plainValue_def)

section \<open>Properties of the cache folder\<close>

text \<open>
  C7, as stated, fails: with neither \<open>APPDATA\<close> nor \<open>HOME\<close> in the environment,
  on \<open>linux\<close> and on \<open>darwin\<close> (also when the platform is passed as argument),
  \<open>path.join\<close> receives \<open>undefined\<close> and throws.
\<close>

theorem locateAppDir_home_unset_counterexample:
  "fst (locateAppDir \<lparr>platform = ''linux'', env = Map.empty\<rparr> None) = Inl invalidArgType \<and>
   fst (locateAppDir \<lparr>platform = ''win32'', env = Map.empty\<rparr> (Some ''darwin'')) = Inl invalidArgType"
  by (simp add: locateAppDir_def baseDir_def effectivePlatform_def isSet_def path_join_def)

text \<open>
  C7, amended. When \<open>APPDATA\<close> is set and not empty, or \<open>HOME\<close> is set, or the
  platform is neither \<open>darwin\<close> nor \<open>linux\<close>, \<open>locateAppDir\<close> returns
  \<open>path.join(base, 'api-console', 'cache', 'builds')\<close>, where \<open>base\<close> is \<open>APPDATA\<close> if
  that is set and not empty, else \<open>path.join(HOME, 'Library', 'Preferences')\<close> on
  \<open>darwin\<close>, else \<open>path.join(HOME, '.config')\<close> on \<open>linux\<close>, else \<open>/var/local\<close>;
  the path returned ends in \<open>api-console/cache/builds\<close>. The platform is the argument
  when one is given, else the one of the process.
\<close>

theorem locateAppDir_resolution:
  assumes "isSet (env proc ''APPDATA'') \<or> env proc ''HOME'' \<noteq> None \<or>
           (effectivePlatform proc pf \<noteq> ''darwin'' \<and> effectivePlatform proc pf \<noteq> ''linux'')"
  shows "\<exists>dir prefix.
           fst (locateAppDir proc pf) = Inr dir \<and>
           dir = joinPaths
                  [if isSet (env proc ''APPDATA'') then the (env proc ''APPDATA'')
                   else if effectivePlatform proc pf = ''darwin''
                     then joinPaths [the (env proc ''HOME''), ''Library'', ''Preferences'']
                   else if effectivePlatform proc pf = ''linux''
                     then joinPaths [the (env proc ''HOME''), ''.config'']
                   else ''/var/local'',
                   ''api-console'', ''cache'', ''builds''] \<and>
           dir = prefix @ ''api-console/cache/builds''"
proof -
  let ?base = "if isSet (env proc ''APPDATA'') then the (env proc ''APPDATA'')
               else if effectivePlatform proc pf = ''darwin''
                 then joinPaths [the (env proc ''HOME''), ''Library'', ''Preferences'']
               else if effectivePlatform proc pf = ''linux''
                 then joinPaths [the (env proc ''HOME''), ''.config'']
               else ''/var/local''"
  let ?dir = "joinPaths [?base, ''api-console'', ''cache'', ''builds'']"
  have d: "fst (locateAppDir proc pf) = Inr ?dir"
  proof (cases "isSet (env proc ''APPDATA'')")
    case True
    then show ?thesis
      by (simp add: locateAppDir_def baseDir_def path_join_def)
  next
    case False
    show ?thesis
    proof (cases "env proc ''HOME''")
      case None
      with False assms show ?thesis
        by (simp add: locateAppDir_def baseDir_def path_join_def)
    next
      case (Some home)
      with False show ?thesis
        by (simp add: locateAppDir_def baseDir_def path_join_def)
    qed
  qed
  from locateAppDir_rooted [OF d] obtain isAbsolute segs
    where "?dir = rooted isAbsolute (segs @ [''api-console'', ''cache'', ''builds''])"
    by blast
  then have "?dir = ((if isAbsolute then ''/'' else []) @
      (if segs = [] then [] else join ''/'' segs @ ''/'')) @ ''api-console/cache/builds''"
    by (simp add: rooted_def join_append3)
  with d show ?thesis by blast
qed

theorem locateAppDir_resolution_witness:
  "fst (locateAppDir \<lparr>platform = ''linux'', env = [''HOME'' \<mapsto> ''/home/u'']\<rparr> None)
     = Inr ''/home/u/.config/api-console/cache/builds'' \<and>
   fst (locateAppDir \<lparr>platform = ''linux'', env = [''HOME'' \<mapsto> ''/home/u'']\<rparr> (Some ''darwin''))
     = Inr ''/home/u/Library/Preferences/api-console/cache/builds'' \<and>
   fst (locateAppDir \<lparr>platform = ''freebsd'', env = Map.empty\<rparr> None)
     = Inr ''/var/local/api-console/cache/builds'' \<and>
   fst (locateAppDir \<lparr>platform = ''linux'', env = [''APPDATA'' \<mapsto> ''/data'']\<rparr> None)
     = Inr ''/data/api-console/cache/builds''"
proof -
  have n: "joinPaths [''/home/u'', ''.config''] = ''/home/u/.config''"
     "joinPaths [''/home/u'', ''Library'', ''Preferences''] = ''/home/u/Library/Preferences''"
     "joinPaths [''/home/u/.config'', ''api-console'', ''cache'', ''builds''] = ''/home/u/.config/api-console/cache/builds''"
     "joinPaths [''/home/u/Library/Preferences'', ''api-console'', ''cache'', ''builds''] = ''/home/u/Library/Preferences/api-console/cache/builds''"
     "joinPaths [''/var/local'', ''api-console'', ''cache'', ''builds''] = ''/var/local/api-console/cache/builds''"
     "joinPaths [''/data'', ''api-console'', ''cache'', ''builds''] = ''/data/api-console/cache/builds''"
    by (simp_all add: joinPaths_def normalize_def normalizeString_def normalizeSegments_def
          normalizeStep_def)
  show ?thesis
    using locateAppDir_resolution [of "\<lparr>platform = ''linux'', env = [''HOME'' \<mapsto> ''/home/u'']\<rparr>" None]
      locateAppDir_resolution [of "\<lparr>platform = ''linux'', env = [''HOME'' \<mapsto> ''/home/u'']\<rparr>" "Some ''darwin''"]
      locateAppDir_resolution [of "\<lparr>platform = ''freebsd'', env = Map.empty\<rparr>" None]
      locateAppDir_resolution [of "\<lparr>platform = ''linux'', env = [''APPDATA'' \<mapsto> ''/data'']\<rparr>" None]
    by (auto simp: isSet_def effectivePlatform_def n)
qed

section \<open>Properties of the store\<close>

text \<open>
  C4. For a store made by the constructor, \<open>hasCache\<close> returns \<open>false\<close> when
  \<open>noCache\<close> is set, whatever the file system holds, and otherwise it returns whether
  the file system has an entry at exactly the cache folder, a slash, the hash and
  \<open>.zip\<close>. The cache folder is the one \<open>locateAppDir\<close> returned. \<open>hasCache\<close> returns
  a value only: the file system is not changed.
\<close>

theorem hasCache_exists_iff:
  assumes "fst (newCacheBuild sha256 proc os) = Inr cb"
  shows "hasCache cb fs =
         Inr (\<not> noCache os \<and>
              pathExists fs (the (cacheFolder cb) @ ''/'' @ createHash sha256 os @ ''.zip''))
         \<and> (noCache os \<or> fst (locateAppDir proc None) = Inr (the (cacheFolder cb)))"
proof (cases "noCache os")
  case True
  with assms show ?thesis
    by (auto simp: newCacheBuild_def hasCache_def)
next
  case False
  with assms obtain dir where dir: "fst (locateAppDir proc None) = Inr dir"
    and cb: "cb = \<lparr>opts = os, hash = Some (createHash sha256 os), cacheFolder = Some dir\<rparr>"
    by (auto simp: newCacheBuild_def Let_def split: prod.splits sum.splits)
  from locateAppDir_rooted [OF dir] obtain isAbsolute segs
    where r: "dir = rooted isAbsolute (segs @ [''api-console'', ''cache'', ''builds''])"
      and nf: "normalForm (\<not> isAbsolute) (segs @ [''api-console'', ''cache'', ''builds''])"
    by blast
  have "joinPaths [dir, zipName (Some (createHash sha256 os))]
          = dir @ ''/'' @ zipName (Some (createHash sha256 os))"
    unfolding r using nf by (rule joinPaths_rooted_snoc) (simp_all add: plainSegment_zipName)
  with False dir cb show ?thesis
    by (simp add: hasCache_def path_join_def zipName_def)
qed

theorem hasCache_exists_iff_witness:
  "hasCache
     \<lparr>opts = \<lparr>tagName = Some ''6.0.0'', themeFile = None, indexFile = None, appTitle = None,
              attributes = None, noCache = False\<rparr>,
      hash = Some ''abcd'', cacheFolder = Some ''/home/u/.config/api-console/cache/builds''\<rparr>
     (Dir [(''home'', Dir [(''u'', Dir [(''.config'', Dir [(''api-console'', Dir [(''cache'',
        Dir [(''builds'', Dir [(''abcd.zip'', File (ZipArchive []))])])])])])])])
   = Inr True \<and>
   hasCache
     \<lparr>opts = \<lparr>tagName = Some ''6.0.0'', themeFile = None, indexFile = None, appTitle = None,
              attributes = None, noCache = False\<rparr>,
      hash = Some ''abcd'', cacheFolder = Some ''/home/u/.config/api-console/cache/builds''\<rparr>
     (Dir [(''home'', Dir [(''u'', Dir [(''.config'', Dir [(''api-console'', Dir [(''cache'',
        Dir [(''builds'', Dir [(''abcd.zip.part'', File (ZipArchive []))])])])])])])])
   = Inr False"
proof -
  let ?os = "\<lparr>tagName = Some ''6.0.0'', themeFile = None, indexFile = None, appTitle = None,
              attributes = None, noCache = False\<rparr>"
  let ?proc = "\<lparr>platform = ''linux'', env = [''HOME'' \<mapsto> ''/home/u'']\<rparr>"
  let ?sha = "\<lambda>s :: string. [0xab, 0xcd :: 8 word]"
  let ?cb = "\<lparr>opts = ?os, hash = Some ''abcd'',
             cacheFolder = Some ''/home/u/.config/api-console/cache/builds''\<rparr>"
  have h: "createHash ?sha ?os = ''abcd''"
    by (simp add: createHash_def digestHex_def hexByte_def hexDigit_def)
  have j: "joinPaths [''/home/u'', ''.config''] = ''/home/u/.config''"
    "joinPaths [''/home/u/.config'', ''api-console'', ''cache'', ''builds'']
       = ''/home/u/.config/api-console/cache/builds''"
    by (simp_all add: joinPaths_def normalize_def normalizeString_def normalizeSegments_def
        normalizeStep_def)
  have c: "fst (newCacheBuild ?sha ?proc ?os) = Inr ?cb"
    by (simp add: newCacheBuild_def locateAppDir_def baseDir_def effectivePlatform_def
        isSet_def path_join_def Let_def h j)
  have r: "resolve ''/home/u/.config/api-console/cache/builds/abcd.zip''
       = [''home'', ''u'', ''.config'', ''api-console'', ''cache'', ''builds'', ''abcd.zip'']"
    by (simp add: resolve_def normalizeSegments_def normalizeStep_def)
  show ?thesis
    using hasCache_exists_iff [OF c] by (simp add: h pathExists_def r)
qed

text \<open>
  C9. With \<open>noCache\<close> the constructor sets neither the hash nor the cache folder.
  \<open>restore\<close> on such a store is rejected with the \<open>TypeError\<close> of \<open>path.join\<close>, and
  the file system is as before; \<open>hasCache\<close> answers \<open>false\<close> and \<open>cacheBuild\<close> does
  nothing.
\<close>

theorem restore_without_cache_fails:
  "newCacheBuild sha256 proc (os\<lparr>noCache := True\<rparr>)
     = (Inr \<lparr>opts = os\<lparr>noCache := True\<rparr>, hash = None, cacheFolder = None\<rparr>, []) \<and>
   restore \<lparr>opts = os\<lparr>noCache := True\<rparr>, hash = None, cacheFolder = None\<rparr> fs build
     = \<lparr>disk = fs, logged = [], uncaught = None, result = Rejected invalidArgType\<rparr> \<and>
   hasCache \<lparr>opts = os\<lparr>noCache := True\<rparr>, hash = None, cacheFolder = None\<rparr> fs = Inr False \<and>
   cacheBuild ar \<lparr>opts = os\<lparr>noCache := True\<rparr>, hash = None, cacheFolder = None\<rparr> fs sources
     = \<lparr>disk = fs, logged = [], uncaught = None, result = Resolved\<rparr>"
  by (simp add: newCacheBuild_def restore_def hasCache_def cacheBuild_def path_join_def)

section \<open>The listeners of the archiver\<close>

text \<open>
  The listeners log a benign event as a warning and leave the promise alone; any other
  event is logged as an error and rejects the promise, which keeps the first
  rejection.
\<close>

lemma handleEvent_benign:
  "benign ev \<Longrightarrow> handleEvent (p, l) ev = (p, l @ [eventLog ev])"
  by (cases ev) (simp_all add: benign_def eventLog_def eventError_def onWarning_def)

lemma handleEvent_other:
  "\<not> benign ev \<Longrightarrow>
   handleEvent (p, l) ev = (settle p (Rejected (eventError ev)), l @ [eventLog ev])"
  by (cases ev) (simp_all add: benign_def eventLog_def eventError_def onWarning_def onError_def)

lemma settle_settled: "p \<noteq> Pending \<Longrightarrow> settle p r = p"
  by (simp add: settle_def)

lemma listeners_settled:
  "p \<noteq> Pending \<Longrightarrow> fst (foldl handleEvent (p, l) evs) = p"
proof (induction evs arbitrary: l)
  case Nil
  then show ?case by simp
next
  case (Cons ev evs)
  then show ?case
    by (cases "benign ev") (simp_all add: handleEvent_benign handleEvent_other settle_settled)
qed

lemma listeners_promise:
  "fst (foldl handleEvent (Pending, l) evs) =
     (case find (\<lambda>ev. \<not> benign ev) evs of
        None \<Rightarrow> Pending
      | Some ev \<Rightarrow> Rejected (eventError ev))"
proof (induction evs arbitrary: l)
  case Nil
  then show ?case by simp
next
  case (Cons ev evs)
  show ?case
  proof (cases "benign ev")
    case True
    with Cons show ?thesis by (simp add: handleEvent_benign)
  next
    case False
    then show ?thesis
      by (simp add: handleEvent_other settle_def listeners_settled)
  qed
qed

lemma listeners_log:
  "snd (foldl handleEvent (p, l) evs) = l @ map eventLog evs"
proof (induction evs arbitrary: p l)
  case Nil
  then show ?case by simp
next
  case (Cons ev evs)
  then show ?case
    by (cases "benign ev") (simp_all add: handleEvent_benign handleEvent_other)
qed

lemma onOutputClose_eq:
  "onOutputClose bytes (p, l) = (settle p Resolved, l @ closeLog bytes)"
  by (simp add: onOutputClose_def closeLog_def)

lemma listeners_before_close:
  "foldl handleEvent (Pending, l) evs =
     (case find (\<lambda>ev. \<not> benign ev) evs of
        None \<Rightarrow> Pending
      | Some ev \<Rightarrow> Rejected (eventError ev),
      l @ map eventLog evs)"
  using listeners_promise [of l evs] listeners_log [of Pending l evs]
  by (simp add: prod_eq_iff)

lemma listeners_after_close:
  assumes "p \<noteq> Pending"
  shows "foldl handleEvent (p, l) evs = (p, l @ map eventLog evs)"
  using listeners_settled [OF assms, of l evs] listeners_log [of p l evs]
  by (simp add: prod_eq_iff)

text \<open>
  C8, as stated, fails: an event that is not benign rejects the promise, but nothing is
  aborted. The sources hold \<open>a.txt\<close> and a directory \<open>sub\<close> with \<open>b.txt\<close> and a socket.
  The archiver emits the warning \<open>ENTRYNOTSUPPORTED\<close> for the socket, leaves it out and
  finishes the archive. \<open>cacheBuild\<close> is rejected with that warning; the cache file is
  there all the same, \<open>hasCache\<close> is true, and \<open>restore\<close> resolves and extracts both
  files from it.
\<close>

theorem cacheBuild_not_aborted_counterexample:
  "let cb = \<lparr>opts = \<lparr>tagName = Some ''6.0.0'', themeFile = None, indexFile = None,
                       appTitle = None, attributes = None, noCache = False\<rparr>,
             hash = Some ''abcd'',
             cacheFolder = Some ''/home/u/.config/api-console/cache/builds''\<rparr>;
       unsupported = Warning (Error (Some ''ENTRYNOTSUPPORTED'') ''Entry not supported'');
       ar = (\<lambda>fs tasks.
               \<lparr>events = [unsupported],
                written = sampleArchive (Bytes ''alpha'') (Bytes ''beta''),
                pointer = ''330'', outputClosed = True, beforeOpen = 0\<rparr>);
       fs = homeDir
              [(''build'',
                Dir [(''a.txt'', File (Bytes ''alpha'')),
                     (''sub'', Dir [(''b.txt'', File (Bytes ''beta'')), (''sock'', Special)])]),
               (''out'', Dir [])];
       packed = cacheBuild ar cb fs ''/home/u/build'';
       restored = restore cb (disk packed) ''/home/u/out''
   in \<not> benign unsupported \<and>
      result packed = Rejected (eventError unsupported) \<and>
      uncaught packed = None \<and>
      lookupNode (disk packed) (resolve ''/home/u/.config/api-console/cache/builds/abcd.zip'')
        = Some (File (sampleArchive (Bytes ''alpha'') (Bytes ''beta''))) \<and>
      hasCache cb (disk packed) = Inr True \<and>
      result restored = Resolved \<and>
      lookupNode (disk restored) (resolve ''/home/u/out'')
        = Some (sampleTree (Bytes ''alpha'') (Bytes ''beta''))"
proof -
  let ?cb = "\<lparr>opts = \<lparr>tagName = Some ''6.0.0'', themeFile = None, indexFile = None,
                       appTitle = None, attributes = None, noCache = False\<rparr>,
              hash = Some ''abcd'',
              cacheFolder = Some ''/home/u/.config/api-console/cache/builds''\<rparr>"
  let ?w = "Error (Some ''ENTRYNOTSUPPORTED'') ''Entry not supported''"
  let ?ar = "\<lambda>(fs :: fnode) (tasks :: task list).
               \<lparr>events = [Warning ?w],
                written = sampleArchive (Bytes ''alpha'') (Bytes ''beta''),
                pointer = ''330'', outputClosed = True, beforeOpen = 0\<rparr>"
  let ?build = "Dir [(''a.txt'', File (Bytes ''alpha'')),
                     (''sub'', Dir [(''b.txt'', File (Bytes ''beta'')), (''sock'', Special)])]"
  let ?cache = "cacheDir ''abcd.zip'' (sampleArchive (Bytes ''alpha'') (Bytes ''beta''))"
  have packed: "cacheBuild ?ar ?cb (homeDir [(''build'', ?build), (''out'', Dir [])])
                  ''/home/u/build''
      = \<lparr>disk = homeDir [(''build'', ?build), (''out'', Dir []), (''.config'', ?cache)],
         logged =
           [(Debug, Text ''caching build files to /home/u/.config/api-console/cache/builds''),
            (Debug, Text ''Adding a.txt file to the cache...''),
            (Debug, Text ''Adding sub directory to the cache...''),
            (Err, Thrown ?w),
            (Debug, Text ''Cache build saved.''), (Debug, Text ''330 total bytes.'')],
         uncaught = None, result = Rejected ?w\<rparr>"
    by (simp add: cacheBuild_def createPackage_def ensureDir_def writeFile_def
        readdirSync_def path_join_def zipName_def resolve_eval paths_eval sample_paths
        List.map_filter_def onOutputClose_def onWarning_def settle_def Let_def)
  have restored: "restore ?cb
        (homeDir [(''build'', ?build), (''out'', Dir []), (''.config'', ?cache)])
        ''/home/u/out''
      = \<lparr>disk = homeDir [(''build'', ?build),
                          (''out'', sampleTree (Bytes ''alpha'') (Bytes ''beta'')),
                          (''.config'', ?cache)],
         logged = [(Debug, Text ''Opening cached zip file.''),
                   (Debug, Text ''Build copied from cache.'')],
         uncaught = None, result = Resolved\<rparr>"
    by (simp add: restore_def processZip_def path_join_def zipName_def resolve_eval
        paths_eval sample_paths openZip_def run.simps step_def deliver_def advance_def
        validateFileName_def slashed_def isDirectoryMarker_def ensureDir_def writeFile_def
        settled_def aggregate_def isLetter_def Let_def)
  show ?thesis
    by (simp add: Let_def packed restored benign_def eventError_def hasCache_def
        pathExists_def path_join_def zipName_def sample_paths resolve_eval)
qed

text \<open>
  C8, amended. In a run of \<open>_createPackage\<close> that gets as far as the archiver (the
  sources can be listed), nothing the archiver emits stops the run: what the archiver
  writes is in the cache file, whatever the events. Every event is logged, a benign
  one as a warning, any other as an error. When the cache file can be opened, the
  promise is rejected with the error of the first event that is not benign; with
  benign events only it is not rejected, and it resolves when the output closes. When
  the cache file cannot be opened, the output closes at once and the promise is
  settled then: rejected if an event that was not benign has come before, resolved
  otherwise.
\<close>

theorem createPackage_failure_classes:
  assumes "path_join [cacheFolder cb, Some (zipName (hash cb))] = Inr dest"
    and "readdirSync fs sources = Inr files"
    and "queued = List.map_filter (dirEntTask sources) files"
    and "r = ar fs (map fst queued)"
    and "out = createPackage ar cb fs sources"
  shows "uncaught out = None \<and>
         (case writeFile fs dest (written r) of
            Inr fs' \<Rightarrow>
              disk out = fs' \<and>
              logged out =
                map snd queued @ map eventLog (events r) @
                (if outputClosed r then closeLog (pointer r) else []) \<and>
              result out =
                (case find (\<lambda>ev. \<not> benign ev) (events r) of
                   None \<Rightarrow> if outputClosed r then Resolved else Pending
                 | Some ev \<Rightarrow> Rejected (eventError ev))
          | Inl e \<Rightarrow>
              disk out = fs \<and>
              logged out =
                map snd queued @ map eventLog (take (beforeOpen r) (events r)) @
                closeLog (pointer r) @ map eventLog (drop (beforeOpen r) (events r)) \<and>
              result out =
                (case find (\<lambda>ev. \<not> benign ev) (take (beforeOpen r) (events r)) of
                   None \<Rightarrow> Resolved
                 | Some ev \<Rightarrow> Rejected (eventError ev)))"
proof (cases "writeFile fs dest (written r)")
  case (Inr fs')
  have "out =
      (let st = foldl handleEvent (Pending, map snd queued) (events r);
           st' = (if outputClosed r then onOutputClose (pointer r) st else st)
       in \<lparr>disk = fs', logged = snd st', uncaught = None, result = fst st'\<rparr>)"
    using assms Inr by (simp add: createPackage_def Let_def)
  then show ?thesis
    using Inr
    by (simp add: listeners_before_close onOutputClose_eq settle_def Let_def
        split: option.splits)
next
  case (Inl e)
  let ?early = "take (beforeOpen r) (events r)"
  let ?late = "drop (beforeOpen r) (events r)"
  let ?p = "settle (case find (\<lambda>ev. \<not> benign ev) ?early of
                      None \<Rightarrow> Pending | Some ev \<Rightarrow> Rejected (eventError ev)) Resolved"
  have c: "out =
      (let st = foldl handleEvent
                  (onOutputClose (pointer r)
                     (foldl handleEvent (Pending, map snd queued) ?early)) ?late
       in \<lparr>disk = fs, logged = snd st, uncaught = None, result = fst st\<rparr>)"
    using assms Inl by (simp add: createPackage_def Let_def)
  have p: "?p \<noteq> Pending"
    by (simp add: settle_def split: option.splits)
  have "foldl handleEvent
          (onOutputClose (pointer r) (foldl handleEvent (Pending, map snd queued) ?early))
          ?late
        = (?p, map snd queued @ map eventLog ?early @ closeLog (pointer r)
               @ map eventLog ?late)"
    by (simp add: listeners_before_close onOutputClose_eq listeners_after_close [OF p])
  with c show ?thesis
    using Inl by (simp add: settle_def Let_def split: option.splits)
qed

text \<open>
  The theorem at three runs, with the sources \<open>/b\<close> and the cache folder \<open>/c\<close>. A
  benign warning: the promise resolves. A benign warning, a warning that is not benign
  and an error: the promise is rejected with the second, and the archive is written.
  The cache file is a directory, so it cannot be opened: the promise resolves before
  the error of the archiver arrives, and nothing is written.
\<close>

theorem createPackage_failure_classes_witness:
  "(let out = createPackage
        (\<lambda>fs tasks. \<lparr>events = [Warning (Error (Some ''ENOENT'') ''gone'')],
                        written = ZipArchive [], pointer = ''22'', outputClosed = True,
                        beforeOpen = 0\<rparr>)
        \<lparr>opts = \<lparr>tagName = Some ''6.0.0'', themeFile = None, indexFile = None,
                 appTitle = None, attributes = None, noCache = False\<rparr>,
         hash = Some ''abcd'', cacheFolder = Some ''/c''\<rparr>
        (Dir [(''c'', Dir []), (''b'', Dir [(''x'', File (Bytes ''1''))])]) ''/b''
    in result out = Resolved \<and>
       disk out = Dir [(''c'', Dir [(''abcd.zip'', File (ZipArchive []))]),
                       (''b'', Dir [(''x'', File (Bytes ''1''))])]) \<and>
   (let out = createPackage
        (\<lambda>fs tasks. \<lparr>events = [Warning (Error (Some ''ENOENT'') ''gone''),
                                  Warning (Error (Some ''EACCES'') ''denied''),
                                  Failure (Error None ''late'')],
                        written = ZipArchive [], pointer = ''22'', outputClosed = True,
                        beforeOpen = 0\<rparr>)
        \<lparr>opts = \<lparr>tagName = Some ''6.0.0'', themeFile = None, indexFile = None,
                 appTitle = None, attributes = None, noCache = False\<rparr>,
         hash = Some ''abcd'', cacheFolder = Some ''/c''\<rparr>
        (Dir [(''c'', Dir []), (''b'', Dir [(''x'', File (Bytes ''1''))])]) ''/b''
    in result out = Rejected (Error (Some ''EACCES'') ''denied'') \<and>
       disk out = Dir [(''c'', Dir [(''abcd.zip'', File (ZipArchive []))]),
                       (''b'', Dir [(''x'', File (Bytes ''1''))])]) \<and>
   (let out = createPackage
        (\<lambda>fs tasks. \<lparr>events = [Failure (Error None ''late'')],
                        written = ZipArchive [], pointer = ''0'', outputClosed = False,
                        beforeOpen = 0\<rparr>)
        \<lparr>opts = \<lparr>tagName = Some ''6.0.0'', themeFile = None, indexFile = None,
                 appTitle = None, attributes = None, noCache = False\<rparr>,
         hash = Some ''abcd'', cacheFolder = Some ''/c''\<rparr>
        (Dir [(''c'', Dir [(''abcd.zip'', Dir [])]), (''b'', Dir [(''x'', File (Bytes ''1''))])])
        ''/b''
    in result out = Resolved \<and>
       disk out = Dir [(''c'', Dir [(''abcd.zip'', Dir [])]),
                       (''b'', Dir [(''x'', File (Bytes ''1''))])] \<and>
       logged out = [(Debug, Text ''Adding x file to the cache...''),
                     (Debug, Text ''Cache build saved.''), (Debug, Text ''0 total bytes.''),
                     (Err, Thrown (Error None ''late''))])"
proof -
  let ?cb = "\<lparr>opts = \<lparr>tagName = Some ''6.0.0'', themeFile = None, indexFile = None,
                appTitle = None, attributes = None, noCache = False\<rparr>,
              hash = Some ''abcd'', cacheFolder = Some ''/c''\<rparr>"
  let ?fs = "Dir [(''c'', Dir []), (''b'', Dir [(''x'', File (Bytes ''1''))])]"
  let ?fs' = "Dir [(''c'', Dir [(''abcd.zip'', Dir [])]),
                   (''b'', Dir [(''x'', File (Bytes ''1''))])]"
  have d: "path_join [cacheFolder ?cb, Some (zipName (hash ?cb))] = Inr ''/c/abcd.zip''"
    by (simp add: path_join_def joinPaths_def zipName_def normalize_def normalizeString_def
        normalizeSegments_def normalizeStep_def)
  have f: "readdirSync ?fs ''/b'' = Inr [(''x'', File (Bytes ''1''))]"
    by (simp add: readdirSync_def resolve_def normalizeSegments_def normalizeStep_def)
  have f': "readdirSync ?fs' ''/b'' = Inr [(''x'', File (Bytes ''1''))]"
    by (simp add: readdirSync_def resolve_def normalizeSegments_def normalizeStep_def)
  have w: "writeFile ?fs ''/c/abcd.zip'' x =
             Inr (Dir [(''c'', Dir [(''abcd.zip'', File x)]),
                       (''b'', Dir [(''x'', File (Bytes ''1''))])])" for x
    by (simp add: writeFile_def resolve_def normalizeSegments_def normalizeStep_def)
  have w': "writeFile ?fs' ''/c/abcd.zip'' x = Inl (sysError ''EISDIR'')" for x
    by (simp add: writeFile_def resolve_def normalizeSegments_def normalizeStep_def)
  show ?thesis
    using createPackage_failure_classes [OF d f refl refl refl, where ar = "\<lambda>fs tasks.
              \<lparr>events = [Warning (Error (Some ''ENOENT'') ''gone'')],
               written = ZipArchive [], pointer = ''22'', outputClosed = True,
               beforeOpen = 0\<rparr>"]
      createPackage_failure_classes [OF d f refl refl refl, where ar = "\<lambda>fs tasks.
              \<lparr>events = [Warning (Error (Some ''ENOENT'') ''gone''),
                         Warning (Error (Some ''EACCES'') ''denied''),
                         Failure (Error None ''late'')],
               written = ZipArchive [], pointer = ''22'', outputClosed = True,
               beforeOpen = 0\<rparr>"]
      createPackage_failure_classes [OF d f' refl refl refl, where ar = "\<lambda>fs tasks.
              \<lparr>events = [Failure (Error None ''late'')],
               written = ZipArchive [], pointer = ''0'', outputClosed = False,
               beforeOpen = 0\<rparr>"]
    by (simp add: w w' benign_def eventError_def eventLog_def closeLog_def
        List.map_filter_def Let_def)
qed

section \<open>One entry at a time\<close>

text \<open>
  An extraction starts with one token, the first \<open>readEntry()\<close> call, and no step
  makes a second one.
\<close>

lemma count_update:
  "i < length ps \<Longrightarrow>
   length (filter P (ps[i := x])) + (if P (ps ! i) then 1 else 0)
     = length (filter P ps) + (if P x then 1 else 0)"
proof (induction ps arbitrary: i)
  case Nil
  then show ?case by simp
next
  case (Cons p ps)
  show ?case
  proof (cases i)
    case 0
    then show ?thesis by simp
  next
    case (Suc j)
    with Cons.prems have "j < length ps" by simp
    from Cons.IH [OF this] Suc show ?thesis by simp
  qed
qed

lemma count_zero: "length (filter P ps) = 0 \<longleftrightarrow> (\<forall>p\<in>set ps. \<not> P p)"
  by (induction ps) auto

lemma phase_cases: "\<not> active ph \<Longrightarrow> \<not> failed ph \<Longrightarrow> ph = Fulfilled"
  by (cases ph) simp_all

lemma streaming_active: "streaming ph \<Longrightarrow> active ph"
  by (cases ph) simp_all

lemma openStreams_le_inFlight: "openStreams s \<le> inFlight s"
proof -
  have "length (filter (\<lambda>p. streaming (snd p)) ps) \<le> length (filter (\<lambda>p. active (snd p)) ps)"
    for ps :: "(zentry \<times> phase) list"
    by (induction ps) (auto simp: streaming_active)
  then show ?thesis by (simp add: openStreams_def inFlight_def)
qed

lemma deliver_tokens:
  assumes "tokens s \<le> 1" and "0 < requests s" and "\<not> closed s"
  shows "tokens (deliver d s) \<le> 1 \<and> (closed (deliver d s) \<longrightarrow> tokens (deliver d s) = 0)"
proof -
  from assms have "requests s = 1" and "inFlight s = 0" and "failures s = 0"
    by (simp_all add: tokens_def)
  then have "requests s = 1"
    and "filter (\<lambda>p. active (snd p)) (promises s) = []"
    and "filter (\<lambda>p. failed (snd p)) (promises s) = []"
    by (simp_all add: inFlight_def failures_def)
  with assms(3) show ?thesis
    by (simp add: deliver_def tokens_def inFlight_def failures_def Let_def
        split: list.splits option.splits)
qed

lemma advance_tokens:
  assumes "advance d i s = Some s'"
  shows "tokens s' \<le> tokens s \<and> closed s' = closed s \<and> 0 < inFlight s"
proof -
  from assms have i: "i < length (promises s)"
    by (auto simp: advance_def split: if_splits)
  obtain e ph where p: "promises s ! i = (e, ph)"
    by (cases "promises s ! i")
  have a: "length (filter (\<lambda>p. active (snd p)) ((promises s)[i := (e, ph')])) + (if active ph then 1 else 0)
      = inFlight s + (if active ph' then 1 else 0)" for ph'
    using count_update [OF i, of "\<lambda>p. active (snd p)" "(e, ph')"] p by (simp add: inFlight_def)
  have f: "length (filter (\<lambda>p. failed (snd p)) ((promises s)[i := (e, ph')])) + (if failed ph then 1 else 0)
      = failures s + (if failed ph' then 1 else 0)" for ph'
    using count_update [OF i, of "\<lambda>p. failed (snd p)" "(e, ph')"] p by (simp add: failures_def)
  have pos: "active ph \<Longrightarrow> 0 < inFlight s"
    using p nth_mem [OF i] by (force simp: inFlight_def filter_empty_conv)
  show ?thesis
  proof (cases ph)
    case EnsuringDir
    with assms i p pos a [of Opening] a [of "Failed err" for err] f [of Opening] f [of "Failed err" for err]
    show ?thesis
      by (auto simp: advance_def tokens_def inFlight_def failures_def Let_def split: sum.splits)
  next
    case Opening
    with assms i p pos a [of "Streaming x" for x] a [of "Failed err" for err]
      f [of "Streaming x" for x] f [of "Failed err" for err]
    show ?thesis
      by (auto simp: advance_def tokens_def inFlight_def failures_def Let_def split: sum.splits)
  next
    case (Streaming x)
    with assms i p pos a [of Fulfilled] f [of Fulfilled]
    show ?thesis
      by (auto simp: advance_def tokens_def inFlight_def failures_def Let_def split: sum.splits)
  next
    case Fulfilled
    with assms i p show ?thesis by (simp add: advance_def)
  next
    case (Failed err)
    with assms i p show ?thesis by (simp add: advance_def)
  qed
qed

lemma Step_tokens:
  assumes "Step d s s'" and "tokens s \<le> 1" and "closed s \<longrightarrow> tokens s = 0"
  shows "tokens s' \<le> 1 \<and> (closed s' \<longrightarrow> tokens s' = 0)"
  using assms
proof cases
  case Deliver
  with assms(2) show ?thesis using deliver_tokens [of s d] by simp
next
  case (Advance i)
  from advance_tokens [OF Advance(2)] assms(2,3) show ?thesis
    by (auto simp: tokens_def)
qed

lemma reachable_tokens:
  assumes "(Step d)\<^sup>*\<^sup>* (openZip fs l es) s"
  shows "tokens s \<le> 1 \<and> (closed s \<longrightarrow> tokens s = 0)"
  using assms
proof (induction rule: rtranclp_induct)
  case base
  show ?case by (simp add: openZip_def tokens_def inFlight_def failures_def)
next
  case (step s s')
  then show ?case using Step_tokens by blast
qed

text \<open>Every state of the deterministic run is one the event loop can reach.\<close>

lemma step_Step: "step d s = Some s' \<Longrightarrow> Step d s s'"
  by (auto simp: step_def split: if_splits option.splits intro: Step.intros)

lemma run_reachable: "(Step d)\<^sup>*\<^sup>* s (run d s)"
proof (induction d s rule: run.induct)
  case (1 d s)
  show ?case
  proof (cases "step d s")
    case None
    then show ?thesis by (simp add: run.simps)
  next
    case (Some s')
    with 1 have "(Step d)\<^sup>*\<^sup>* s' (run d s')" by simp
    moreover from Some have "Step d s s'" by (rule step_Step)
    ultimately show ?thesis
      using Some by (simp add: run.simps [of d s] converse_rtranclp_into_rtranclp)
  qed
qed

text \<open>
  Conversely, from a state with at most one token the event loop has no choice: its
  only step is the one of the deterministic run. So the state in which \<open>run\<close> ends
  is the only state in which an extraction can end.
\<close>

lemma firstActive_unique:
  assumes "i < length ps" and "active (snd (ps ! i))"
    and "length (filter (\<lambda>p. active (snd p)) ps) \<le> 1"
  shows "firstActive ps = Some i"
  using assms
proof (induction ps arbitrary: i)
  case Nil
  then show ?case by simp
next
  case (Cons p ps)
  show ?case
  proof (cases i)
    case 0
    with Cons.prems show ?thesis by simp
  next
    case (Suc j)
    with Cons.prems have j: "j < length ps" "active (snd (ps ! j))" by simp_all
    then have "ps ! j \<in> set (filter (\<lambda>p. active (snd p)) ps)" by simp
    then have "0 < length (filter (\<lambda>p. active (snd p)) ps)"
      by (cases "filter (\<lambda>p. active (snd p)) ps") auto
    with Cons.prems(3) have "\<not> active (snd p)"
      and "length (filter (\<lambda>p. active (snd p)) ps) \<le> 1"
      by (auto split: if_splits)
    with Cons.IH [OF j] Suc show ?thesis by simp
  qed
qed

lemma Step_step:
  assumes "Step d s s'" and "tokens s \<le> 1"
  shows "step d s = Some s'"
  using assms(1)
proof cases
  case Deliver
  then show ?thesis by (simp add: step_def)
next
  case (Advance i)
  from advance_tokens [OF Advance(2)] assms(2) have r: "requests s = 0" and f: "inFlight s \<le> 1"
    by (simp_all add: tokens_def)
  from Advance(2) have i: "i < length (promises s)" and a: "active (snd (promises s ! i))"
    by (auto simp: advance_def Let_def split: if_splits phase.splits)
  from firstActive_unique [OF i a] f have "firstActive (promises s) = Some i"
    by (simp add: inFlight_def)
  with Advance r show ?thesis by (simp add: step_def)
qed

lemma run_final: "step d (run d s) = None"
proof (induction d s rule: run.induct)
  case (1 d s)
  then show ?case
    by (cases "step d s") (simp_all add: run.simps [of d s])
qed

lemma run_unique:
  assumes "(Step d)\<^sup>*\<^sup>* s t" and "\<forall>t'. \<not> Step d t t'"
    and "tokens s \<le> 1" and "closed s \<longrightarrow> tokens s = 0"
  shows "t = run d s"
  using assms
proof (induction rule: converse_rtranclp_induct)
  case base
  have "step d t = None"
  proof (cases "step d t")
    case (Some t')
    then have "Step d t t'" by (rule step_Step)
    with base show ?thesis by simp
  qed simp
  then show ?case by (simp add: run.simps [of d t])
next
  case (step s s')
  from Step_step [OF step.hyps(1) step.prems(2)] have s: "step d s = Some s'" .
  from Step_tokens [OF step.hyps(1) step.prems(2,3)] step.IH step.prems(1)
  have "t = run d s'" by simp
  with s show ?case by (simp add: run.simps [of d s])
qed

lemma extraction_outcome_unique:
  assumes "(Step d)\<^sup>*\<^sup>* (openZip fs l es) t" and "\<forall>t'. \<not> Step d t t'"
  shows "t = run d (openZip fs l es)"
  using assms
  by (rule run_unique) (simp_all add: openZip_def tokens_def inFlight_def failures_def)

text \<open>
  C5. In every state that an extraction can reach, in whatever order its steps are
  taken: the \<open>readEntry()\<close> calls not answered and the entries in extraction are at
  most one together, at most one entry has its streams open, and while a
  \<open>readEntry()\<close> call is not answered every entry delivered so far is done
  (a directory marker skipped, a file written and its write stream closed).
\<close>

theorem single_entry_in_flight:
  assumes "(Step destination)\<^sup>*\<^sup>* (openZip fs l es) s"
  shows "requests s + inFlight s \<le> 1 \<and> openStreams s \<le> 1 \<and>
         (requests s = 0 \<or> list_all (\<lambda>p. snd p = Fulfilled) (promises s))"
proof -
  from reachable_tokens [OF assms] have t: "requests s + inFlight s + failures s \<le> 1"
    by (simp add: tokens_def)
  have "list_all (\<lambda>p. snd p = Fulfilled) (promises s)" if "0 < requests s"
  proof -
    from t that have "inFlight s = 0" and "failures s = 0" by simp_all
    then have "\<forall>p\<in>set (promises s). \<not> active (snd p) \<and> \<not> failed (snd p)"
      by (simp add: inFlight_def failures_def count_zero del: length_0_conv)
    then show ?thesis
      by (auto simp: list_all_iff intro: phase_cases)
  qed
  with t openStreams_le_inFlight [of s] show ?thesis
    by (cases "requests s = 0") auto
qed

theorem single_entry_in_flight_witness:
  "requests (run ''/out'' (openZip (Dir [(''out'', Dir [])]) []
       [ZEntry ''a.txt'' (Inr (Bytes ''alpha'')), ZEntry ''sub/'' (Inr (Bytes [])),
        ZEntry ''sub/b.txt'' (Inr (Bytes ''beta''))]))
   + inFlight (run ''/out'' (openZip (Dir [(''out'', Dir [])]) []
       [ZEntry ''a.txt'' (Inr (Bytes ''alpha'')), ZEntry ''sub/'' (Inr (Bytes [])),
        ZEntry ''sub/b.txt'' (Inr (Bytes ''beta''))])) \<le> 1 \<and>
   openStreams (run ''/out'' (openZip (Dir [(''out'', Dir [])]) []
       [ZEntry ''a.txt'' (Inr (Bytes ''alpha'')), ZEntry ''sub/'' (Inr (Bytes [])),
        ZEntry ''sub/b.txt'' (Inr (Bytes ''beta''))])) \<le> 1 \<and>
   (requests (run ''/out'' (openZip (Dir [(''out'', Dir [])]) []
       [ZEntry ''a.txt'' (Inr (Bytes ''alpha'')), ZEntry ''sub/'' (Inr (Bytes [])),
        ZEntry ''sub/b.txt'' (Inr (Bytes ''beta''))])) = 0 \<or>
    list_all (\<lambda>p. snd p = Fulfilled)
      (promises (run ''/out'' (openZip (Dir [(''out'', Dir [])]) []
       [ZEntry ''a.txt'' (Inr (Bytes ''alpha'')), ZEntry ''sub/'' (Inr (Bytes [])),
        ZEntry ''sub/b.txt'' (Inr (Bytes ''beta''))]))))"
  by (rule single_entry_in_flight [OF run_reachable])

section \<open>Packing and unpacking\<close>

lemma resolve_rooted:
  assumes "normalForm False segs"
  shows "resolve (rooted True segs) = segs"
proof (cases "segs = []")
  case True
  then show ?thesis
    by (simp add: resolve_def rooted_def normalizeSegments_def normalizeStep_def)
next
  case False
  have ns: "\<forall>x\<in>set segs. CHR ''/'' \<notin> set x"
    using assms by (auto simp: normalForm_def okSegment_def list_all_iff)
  have "splitSlash (rooted True segs) = [] # segs"
    using splitSlash_join [OF False ns] by (simp add: rooted_def)
  then show ?thesis
    using normalForm_fixed [of False "[]" segs] assms
    by (simp add: resolve_def normalizeSegments_def normalizeStep_def)
qed

lemma zip_path:
  fixes sha256 os
  defines "k \<equiv> zipName (Some (createHash sha256 os))"
  shows "joinPaths [''/home/u/.config/api-console/cache/builds'', k]
           = ''/home/u/.config/api-console/cache/builds/'' @ k"
    and "resolve (''/home/u/.config/api-console/cache/builds/'' @ k)
           = [''home'', ''u'', ''.config'', ''api-console'', ''cache'', ''builds'', k]"
proof -
  let ?segs = "[''home'', ''u'', ''.config'', ''api-console'', ''cache'', ''builds'']"
  have pk: "plainSegment k"
    unfolding k_def by (rule plainSegment_zipName)
  have nf: "normalForm False ?segs"
    by (simp add: normalForm_def okSegment_def)
  have r: "rooted True ?segs = ''/home/u/.config/api-console/cache/builds''"
    by (simp add: rooted_def)
  from joinPaths_rooted_snoc [of True ?segs k] nf pk
  show "joinPaths [''/home/u/.config/api-console/cache/builds'', k]
           = ''/home/u/.config/api-console/cache/builds/'' @ k"
    by (simp add: r)
  have "normalForm False (?segs @ [k])"
    using nf pk by (rule normalForm_snoc)
  from resolve_rooted [OF this]
  show "resolve (''/home/u/.config/api-console/cache/builds/'' @ k)
           = [''home'', ''u'', ''.config'', ''api-console'', ''cache'', ''builds'', k]"
    by (simp add: rooted_def)
qed

lemma store_eval:
  assumes "fst (newCacheBuild sha256 linuxProcess os) = Inr cb"
    and "\<not> noCache os"
  shows "cb = \<lparr>opts = os, hash = Some (createHash sha256 os),
               cacheFolder = Some ''/home/u/.config/api-console/cache/builds''\<rparr>"
  using assms
  by (simp add: newCacheBuild_def locateAppDir_def baseDir_def effectivePlatform_def isSet_def
      path_join_def Let_def paths_eval)

lemma pack_eval:
  assumes "\<not> noCache os"
  shows "cacheBuild (zipArchiver n)
           \<lparr>opts = os, hash = Some (createHash sha256 os),
            cacheFolder = Some ''/home/u/.config/api-console/cache/builds''\<rparr>
           (homeDir [(''build'', sampleTree a b), (''out'', Dir [])])
           ''/home/u/build''
         = \<lparr>disk = homeDir [(''build'', sampleTree a b), (''out'', Dir []),
                     (''.config'',
                      cacheDir (zipName (Some (createHash sha256 os))) (sampleArchive a b))],
            logged = [(Debug, Text ''caching build files to /home/u/.config/api-console/cache/builds''),
                      (Debug, Text ''Adding a.txt file to the cache...''),
                      (Debug, Text ''Adding sub directory to the cache...''),
                      (Debug, Text ''Cache build saved.''),
                      (Debug, Text (n @ '' total bytes.''))],
            uncaught = None, result = Resolved\<rparr>"
  using assms zip_path [of sha256 os]
  by (simp add: cacheBuild_def createPackage_def ensureDir_def writeFile_def readdirSync_def
      path_join_def resolve_eval paths_eval zipArchiver_def List.map_filter_def
      onOutputClose_def settle_def Let_def)

lemma restore_eval:
  "restore
     \<lparr>opts = os, hash = Some (createHash sha256 os),
      cacheFolder = Some ''/home/u/.config/api-console/cache/builds''\<rparr>
     (homeDir [(''build'', sampleTree a b), (''out'', Dir []),
               (''.config'',
                cacheDir (zipName (Some (createHash sha256 os))) (sampleArchive a b))])
     ''/home/u/out''
   = \<lparr>disk = homeDir [(''build'', sampleTree a b), (''out'', sampleTree a b),
                      (''.config'',
                       cacheDir (zipName (Some (createHash sha256 os))) (sampleArchive a b))],
      logged = [(Debug, Text ''Opening cached zip file.''),
                (Debug, Text ''Build copied from cache.'')],
      uncaught = None, result = Resolved\<rparr>"
  using zip_path [of sha256 os]
  by (simp add: restore_def processZip_def path_join_def resolve_eval paths_eval
      openZip_def run.simps step_def deliver_def advance_def validateFileName_def slashed_def
      isDirectoryMarker_def ensureDir_def writeFile_def settled_def aggregate_def
      isLetter_def Let_def)

text \<open>
  C3. On a machine with \<open>HOME\<close> \<open>/home/u\<close>, for every store the constructor makes with
  caching on, every digest function and all contents \<open>a\<close> and \<open>b\<close> of the two files:
  \<open>cacheBuild\<close> on the directory \<open>/home/u/build\<close>, which holds \<open>a.txt\<close> and
  \<open>sub/b.txt\<close>, resolves, and \<open>restore\<close> into the empty directory \<open>/home/u/out\<close>
  then resolves and leaves \<open>a.txt\<close> and \<open>sub/b.txt\<close> there, with the contents \<open>a\<close>
  and \<open>b\<close>: the destination holds the same tree as the source.
\<close>

theorem pack_unpack_round_trip:
  assumes "fst (newCacheBuild sha256 linuxProcess os) = Inr cb"
    and "\<not> noCache os"
  shows "let fs = homeDir [(''build'', sampleTree a b), (''out'', Dir [])];
             packed = cacheBuild (zipArchiver n) cb fs ''/home/u/build'';
             restored = restore cb (disk packed) ''/home/u/out''
         in result packed = Resolved \<and> uncaught packed = None \<and>
            result restored = Resolved \<and> uncaught restored = None \<and>
            lookupNode (disk restored) (resolve ''/home/u/out'') = Some (sampleTree a b) \<and>
            lookupNode (disk restored) (resolve ''/home/u/out'')
              = lookupNode fs (resolve ''/home/u/build'')"
proof -
  have cb: "cb = \<lparr>opts = os, hash = Some (createHash sha256 os),
                  cacheFolder = Some ''/home/u/.config/api-console/cache/builds''\<rparr>"
    using assms by (rule store_eval)
  show ?thesis
    unfolding cb Let_def pack_eval [OF assms(2)]
    by (simp add: restore_eval resolve_eval)
qed

theorem pack_unpack_round_trip_witness:
  "lookupNode
     (disk (restore
        \<lparr>opts = \<lparr>tagName = Some ''6.0.0'', themeFile = None, indexFile = None,
                 appTitle = None, attributes = None, noCache = False\<rparr>,
         hash = Some ''abcd'', cacheFolder = Some ''/home/u/.config/api-console/cache/builds''\<rparr>
        (disk (cacheBuild (zipArchiver ''310'')
           \<lparr>opts = \<lparr>tagName = Some ''6.0.0'', themeFile = None, indexFile = None,
                    appTitle = None, attributes = None, noCache = False\<rparr>,
            hash = Some ''abcd'', cacheFolder = Some ''/home/u/.config/api-console/cache/builds''\<rparr>
           (homeDir [(''build'', sampleTree (Bytes ''alpha'') (Bytes ''beta'')), (''out'', Dir [])])
           ''/home/u/build''))
        ''/home/u/out''))
     [''home'', ''u'', ''out'']
   = Some (sampleTree (Bytes ''alpha'') (Bytes ''beta''))"
proof -
  let ?os = "\<lparr>tagName = Some ''6.0.0'', themeFile = None, indexFile = None,
               appTitle = None, attributes = None, noCache = False\<rparr>"
  let ?sha = "\<lambda>s :: string. [0xab, 0xcd :: 8 word]"
  have h: "createHash ?sha ?os = ''abcd''"
    by (simp add: createHash_def digestHex_def hexByte_def hexDigit_def)
  have c: "fst (newCacheBuild ?sha linuxProcess ?os)
      = Inr \<lparr>opts = ?os, hash = Some ''abcd'',
              cacheFolder = Some ''/home/u/.config/api-console/cache/builds''\<rparr>"
    by (simp add: newCacheBuild_def locateAppDir_def baseDir_def effectivePlatform_def
        isSet_def path_join_def Let_def h paths_eval)
  show ?thesis
    using pack_unpack_round_trip [OF c, of "Bytes ''alpha''" "Bytes ''beta''" "''310''"]
    by (simp add: Let_def resolve_eval)
qed

section \<open>A failing entry\<close>

text \<open>
  Once the extraction of an entry has failed, no step is left: \<open>readEntry()\<close> is not
  called again, so the reader emits neither \<open>entry\<close> nor \<open>close\<close>, the \<open>close\<close>
  listener never runs, and the promise of \<open>_processZip\<close> stays pending.
\<close>

lemma failure_is_final:
  assumes "(Step d)\<^sup>*\<^sup>* (openZip fs l es) s" and "0 < failures s"
  shows "settled s = Pending \<and> (\<forall>s'. \<not> Step d s s')"
proof -
  from reachable_tokens [OF assms(1)] assms(2)
  have r: "requests s = 0" and a: "inFlight s = 0" and c: "\<not> closed s"
    by (auto simp: tokens_def)
  have "\<not> Step d s s'" for s'
  proof
    assume "Step d s s'"
    then show False
    proof cases
      case Deliver
      with r show ?thesis by simp
    next
      case (Advance i)
      from advance_tokens [OF Advance(2)] a show ?thesis by simp
    qed
  qed
  with c show ?thesis by (simp add: settled_def)
qed

text \<open>
  C6, at a failing input. The cache archive holds \<open>a.txt\<close>, \<open>sub/b.txt\<close> and
  \<open>z.txt\<close>, and the destination \<open>/home/u/out\<close> holds a regular file \<open>sub\<close>. \<open>a.txt\<close>
  is extracted and stays, \<open>ensureDir\<close> fails for \<open>sub/b.txt\<close> and the failure is
  logged as a warning, \<open>z.txt\<close> is never read, and the promise of \<open>restore\<close> is
  neither resolved nor rejected.
\<close>

theorem restore_entry_failure_never_settles:
  "restore
     \<lparr>opts = os, hash = Some (createHash sha256 os),
      cacheFolder = Some ''/home/u/.config/api-console/cache/builds''\<rparr>
     (homeDir
        [(''out'', Dir [(''sub'', File (Bytes ''old''))]),
         (''.config'',
          cacheDir (zipName (Some (createHash sha256 os)))
            (ZipArchive [ZEntry ''a.txt'' (Inr a), ZEntry ''sub/b.txt'' (Inr b),
                         ZEntry ''z.txt'' (Inr z)]))])
     ''/home/u/out''
   = \<lparr>disk =
        homeDir
          [(''out'', Dir [(''sub'', File (Bytes ''old'')), (''a.txt'', File a)]),
           (''.config'',
            cacheDir (zipName (Some (createHash sha256 os)))
              (ZipArchive [ZEntry ''a.txt'' (Inr a), ZEntry ''sub/b.txt'' (Inr b),
                           ZEntry ''z.txt'' (Inr z)]))],
      logged = [(Debug, Text ''Opening cached zip file.''),
                (Warn, Thrown (sysError ''EEXIST''))],
      uncaught = None, result = Pending\<rparr>"
  using zip_path [of sha256 os]
  by (simp add: restore_def processZip_def path_join_def resolve_eval paths_eval
      openZip_def run.simps step_def deliver_def advance_def validateFileName_def slashed_def
      isDirectoryMarker_def ensureDir_def writeFile_def settled_def isLetter_def Let_def)

end
